theory Spec2Isabelle
  imports Complex_Main "HOL-Library.Monad_Syntax"
begin

section \<open>The sleep/wake component engine of cpSpaceComponent.c\<close>

text \<open>
  A shallow embedding of \<^verbatim>\<open>src/cpSpaceComponent.c\<close>. Objects live in explicit
  heaps (maps from addresses to records); a C pointer that the source tests against
  \<^verbatim>\<open>NULL\<close> is an \<open>nat option\<close>, a pointer it dereferences unconditionally is a
  \<open>nat\<close> whose heap lookup may fail. Every function returns an \<open>option\<close>: \<open>None\<close>
  stands for a call that does not return normally (a failed \<^verbatim>\<open>cpAssert\<close>, a
  dereference of \<^verbatim>\<open>NULL\<close> or of a dangling pointer, an invalid \<^verbatim>\<open>cpfree\<close>,
  or a traversal that never ends). \<^verbatim>\<open>cpFloat\<close> is abstracted to \<open>real\<close>
  (exact arithmetic, no NaN and no infinity); the C \<^verbatim>\<open>int\<close> rank is an
  unbounded \<open>int\<close>.
\<close>

subsection \<open>Data model\<close>

record cpComponentNode =
  parent :: "nat option"
  "next" :: "nat option"
  rank :: int
  idleTime :: real

text \<open>
  Modelled from the spec: the body attributes that \<^verbatim>\<open>chipmunk_private.h\<close> (not part of
  the sources) declares. \<open>static\<close> is the verdict of \<^verbatim>\<open>cpBodyIsStatic\<close>, \<open>kinetic\<close>
  the value of \<^verbatim>\<open>cpBodyKineticEnergy\<close>; \<open>space\<close> tells whether \<^verbatim>\<open>body->space\<close> is
  non-NULL (the model holds one cpSpace, so a non-NULL space pointer is that space).
\<close>

record cpBody =
  mass :: real
  kinetic :: real
  pos :: "real \<times> real"
  rot :: "real \<times> real"
  static :: bool
  space :: bool
  shapeList :: "nat option"
  arbiterList :: "nat option"
  constraintList :: "nat option"
  node :: cpComponentNode

text \<open>
  Modelled from the spec: a shape belongs to a body, is threaded on that body's
  \<open>shapeList\<close> by \<open>shape_next\<close>, has a stable \<open>hashid\<close>, and caches the position
  and rotation that \<^verbatim>\<open>cpShapeUpdate\<close> was last called with.
\<close>

record cpShape =
  shape_body :: nat
  shape_next :: "nat option"
  hashid :: nat
  cached :: "((real \<times> real) \<times> (real \<times> real)) option"

text \<open>Modelled from the spec (S6): a contact is the tuple (px, py, jn, jt).\<close>

type_synonym cpContact = "real \<times> real \<times> real \<times> real"

text \<open>
  Where \<^verbatim>\<open>arb->contacts\<close> points: nowhere, to a block obtained from \<^verbatim>\<open>cpmalloc\<close>,
  or to an offset of the space's per-step contact buffer.
\<close>

datatype contacts_ptr = NullContacts | HeapBlock nat | BufferAt nat

record cpArbiter =
  arb_a :: nat
  arb_b :: nat
  nextA :: "nat option"
  nextB :: "nat option"
  numContacts :: nat
  contacts :: contacts_ptr

record cpConstraint =
  con_a :: nat
  con_b :: nat
  con_nextA :: "nat option"
  con_nextB :: "nat option"

text \<open>
  The heaps and the fields of the one cpSpace. \<open>blocks\<close> is the allocator's memory:
  entry \<open>k\<close> is the contents of block \<open>k\<close>, or \<open>None\<close> once released.
  \<open>contactBuffer\<close> are the cells of the per-step contact arena and
  \<open>contactBufferNum\<close> its watermark.
\<close>

record world =
  bodyH :: "nat \<rightharpoonup> cpBody"
  shapeH :: "nat \<rightharpoonup> cpShape"
  arbH :: "nat \<rightharpoonup> cpArbiter"
  conH :: "nat \<rightharpoonup> cpConstraint"
  blocks :: "cpContact list option list"
  contactBuffer :: "nat \<Rightarrow> cpContact"
  contactBufferNum :: nat
  locked :: bool
  bodies :: "nat list"
  rousedBodies :: "nat list"
  sleepingComponents :: "nat list"
  activeShapes :: "(nat \<times> nat) list"
  staticShapes :: "(nat \<times> nat) list"
  arbiters :: "nat list"
  constraints :: "nat list"
  contactSet :: "(nat \<times> nat) \<rightharpoonup> nat"
  idleSpeedThreshold :: real
  sleepTimeThreshold :: real
  gravity :: "real \<times> real"

subsection \<open>The collaborators the file calls\<close>

text \<open>Modelled from the spec: ambient arrays with append and delete-by-identity.\<close>

definition cpArrayPush :: "nat list \<Rightarrow> nat \<Rightarrow> nat list" where
  "cpArrayPush arr obj = arr @ [obj]"

definition cpArrayDeleteObj :: "nat list \<Rightarrow> nat \<Rightarrow> nat list" where
  "cpArrayDeleteObj arr obj = remove1 obj arr"

text \<open>Modelled from the spec: a spatial index offers insert and remove of a shape under its hashid.\<close>

definition cpSpatialIndexInsert :: "(nat \<times> nat) list \<Rightarrow> nat \<Rightarrow> nat \<Rightarrow> (nat \<times> nat) list" where
  "cpSpatialIndexInsert index shape hid = List.insert (hid, shape) index"

definition cpSpatialIndexRemove :: "(nat \<times> nat) list \<Rightarrow> nat \<Rightarrow> nat \<Rightarrow> (nat \<times> nat) list" where
  "cpSpatialIndexRemove index shape hid = removeAll (hid, shape) index"

text \<open>
  Modelled from the spec: the contact set is a mapping from the unordered pair of two
  shape identities to the arbiter handling that pair; the key is symmetric.
\<close>

definition CP_HASH_PAIR :: "nat \<Rightarrow> nat \<Rightarrow> nat \<times> nat" where
  "CP_HASH_PAIR x y = (min x y, max x y)"

definition cpHashSetInsert :: "((nat \<times> nat) \<rightharpoonup> nat) \<Rightarrow> nat \<times> nat \<Rightarrow> nat \<Rightarrow> ((nat \<times> nat) \<rightharpoonup> nat)" where
  "cpHashSetInsert cset key arb = cset(key \<mapsto> arb)"

definition cpHashSetRemove :: "((nat \<times> nat) \<rightharpoonup> nat) \<Rightarrow> nat \<times> nat \<Rightarrow> ((nat \<times> nat) \<rightharpoonup> nat)" where
  "cpHashSetRemove cset key = cset(key := None)"

text \<open>Modelled from the spec: the three classification predicates of a body.\<close>

definition cpBodyIsStatic :: "cpBody \<Rightarrow> bool" where
  "cpBodyIsStatic body = static body"

definition cpBodyIsRogue :: "cpBody \<Rightarrow> bool" where
  "cpBodyIsRogue body = (\<not> space body)"

definition cpBodyIsSleeping :: "cpBody \<Rightarrow> bool" where
  "cpBodyIsSleeping body = (next (node body) \<noteq> None)"

text \<open>
  Modelled from the spec: the allocator and the contact arena. \<^verbatim>\<open>cpmalloc\<close> returns a
  fresh block (its cells hold an arbitrary value until \<^verbatim>\<open>memcpy\<close> overwrites them);
  \<^verbatim>\<open>cpfree\<close> releases an allocated block, accepts \<^verbatim>\<open>NULL\<close> and fails on anything
  else; \<^verbatim>\<open>cpContactBufferGetArray\<close> is the writable span at the watermark and
  \<^verbatim>\<open>cpSpacePushContacts\<close> advances the watermark.
\<close>

definition cpmalloc :: "world \<Rightarrow> nat \<Rightarrow> contacts_ptr \<times> world" where
  "cpmalloc w n = (HeapBlock (length (blocks w)),
                   w\<lparr>blocks := blocks w @ [Some (replicate n (0, 0, 0, 0))]\<rparr>)"

definition cpfree :: "world \<Rightarrow> contacts_ptr \<Rightarrow> world option" where
  "cpfree w p =
     (case p of
        NullContacts \<Rightarrow> Some w
      | BufferAt off \<Rightarrow> None
      | HeapBlock k \<Rightarrow>
          (if k < length (blocks w) \<and> blocks w ! k \<noteq> None
           then Some (w\<lparr>blocks := (blocks w)[k := None]\<rparr>) else None))"

definition readContacts :: "world \<Rightarrow> contacts_ptr \<Rightarrow> nat \<Rightarrow> cpContact list option" where
  "readContacts w p n =
     (case p of
        NullContacts \<Rightarrow> (if n = 0 then Some [] else None)
      | BufferAt off \<Rightarrow> Some (map (contactBuffer w) [off ..< off + n])
      | HeapBlock k \<Rightarrow>
          (if k < length (blocks w) then
             (case blocks w ! k of
                None \<Rightarrow> None
              | Some cs \<Rightarrow> (if n \<le> length cs then Some (take n cs) else None))
           else None))"

definition writeContacts :: "world \<Rightarrow> contacts_ptr \<Rightarrow> cpContact list \<Rightarrow> world option" where
  "writeContacts w p cs =
     (case p of
        NullContacts \<Rightarrow> (if cs = [] then Some w else None)
      | BufferAt off \<Rightarrow>
          Some (w\<lparr>contactBuffer :=
                  (\<lambda>i. if off \<le> i \<and> i < off + length cs then cs ! (i - off)
                       else contactBuffer w i)\<rparr>)
      | HeapBlock k \<Rightarrow>
          (if k < length (blocks w) then
             (case blocks w ! k of
                None \<Rightarrow> None
              | Some old \<Rightarrow>
                  (if length cs \<le> length old
                   then Some (w\<lparr>blocks := (blocks w)[k := Some (cs @ drop (length cs) old)]\<rparr>)
                   else None))
           else None))"

definition memcpy :: "world \<Rightarrow> contacts_ptr \<Rightarrow> contacts_ptr \<Rightarrow> nat \<Rightarrow> world option" where
  "memcpy w dst src n = do { cs \<leftarrow> readContacts w src n; writeContacts w dst cs }"

definition cpContactBufferGetArray :: "world \<Rightarrow> contacts_ptr" where
  "cpContactBufferGetArray w = BufferAt (contactBufferNum w)"

definition cpSpacePushContacts :: "world \<Rightarrow> nat \<Rightarrow> world" where
  "cpSpacePushContacts w n = w\<lparr>contactBufferNum := contactBufferNum w + n\<rparr>"

text \<open>Modelled from the spec: \<^verbatim>\<open>cpvdot\<close>, the dot product of two vectors.\<close>

definition cpvdot :: "real \<times> real \<Rightarrow> real \<times> real \<Rightarrow> real" where
  "cpvdot u v = fst u * fst v + snd u * snd v"

subsection \<open>Disjoint set forest\<close>

text \<open>\<^verbatim>\<open>componentNodeRoot\<close>: the recursive find with path compression.\<close>

partial_function (option) componentNodeRoot ::
    "(nat \<rightharpoonup> cpBody) \<Rightarrow> nat \<Rightarrow> (nat \<times> (nat \<rightharpoonup> cpBody)) option" where
  "componentNodeRoot h body =
     (case h body of
        None \<Rightarrow> None
      | Some B \<Rightarrow>
          (case parent (node B) of
             Some p \<Rightarrow>
               do {
                 (r, h') \<leftarrow> componentNodeRoot h p;
                 (case h' body of
                    None \<Rightarrow> None
                  | Some B' \<Rightarrow> Some (r, h'(body \<mapsto> B'\<lparr>node := (node B')\<lparr>parent := Some r\<rparr>\<rparr>)))
               }
           | None \<Rightarrow> Some (body, h)))"

definition componentNodeMerge :: "(nat \<rightharpoonup> cpBody) \<Rightarrow> nat \<Rightarrow> nat \<Rightarrow> (nat \<rightharpoonup> cpBody) option" where
  "componentNodeMerge h a_root b_root =
     do {
       A \<leftarrow> h a_root;
       B \<leftarrow> h b_root;
       if rank (node A) < rank (node B) then
         Some (h(a_root \<mapsto> A\<lparr>node := (node A)\<lparr>parent := Some b_root\<rparr>\<rparr>))
       else if rank (node A) > rank (node B) then
         Some (h(b_root \<mapsto> B\<lparr>node := (node B)\<lparr>parent := Some a_root\<rparr>\<rparr>))
       else if a_root \<noteq> b_root then
         do {
           let h1 = h(b_root \<mapsto> B\<lparr>node := (node B)\<lparr>parent := Some a_root\<rparr>\<rparr>);
           A1 \<leftarrow> h1 a_root;
           Some (h1(a_root \<mapsto> A1\<lparr>node := (node A1)\<lparr>rank := rank (node A1) + 1\<rparr>\<rparr>))
         }
       else Some h
     }"

subsection \<open>Activation and deactivation of one body\<close>

text \<open>The loop over \<^verbatim>\<open>body->shapeList\<close> of \<^verbatim>\<open>cpSpaceActivateBody\<close> (lines 68-71).\<close>

partial_function (option) activateShapes :: "world \<Rightarrow> nat option \<Rightarrow> world option" where
  "activateShapes w sp =
     (case sp of
        None \<Rightarrow> Some w
      | Some shape \<Rightarrow>
          (case shapeH w shape of
             None \<Rightarrow> None
           | Some S \<Rightarrow>
               activateShapes
                 (w\<lparr>staticShapes := cpSpatialIndexRemove (staticShapes w) shape (hashid S),
                    activeShapes := cpSpatialIndexInsert (activeShapes w) shape (hashid S)\<rparr>)
                 (shape_next S)))"

text \<open>
  The test \<^verbatim>\<open>body == arb->a->body || cpBodyIsStatic(arb->a->body)\<close> and the loop
  increment \<^verbatim>\<open>arb->a->body == body ? arb->nextA : arb->nextB\<close> of the two arbiter
  traversals (lines 73-74 and 107-108).
\<close>

definition arbiterPrimary :: "world \<Rightarrow> nat \<Rightarrow> nat \<Rightarrow> bool option" where
  "arbiterPrimary w body arb =
     do {
       A \<leftarrow> arbH w arb;
       S \<leftarrow> shapeH w (arb_a A);
       if body = shape_body S then Some True
       else do { Ba \<leftarrow> bodyH w (shape_body S); Some (cpBodyIsStatic Ba) }
     }"

definition arbiterNext :: "world \<Rightarrow> nat \<Rightarrow> nat \<Rightarrow> nat option option" where
  "arbiterNext w body arb =
     do {
       A \<leftarrow> arbH w arb;
       S \<leftarrow> shapeH w (arb_a A);
       Some (if shape_body S = body then nextA A else nextB A)
     }"

text \<open>Lines 75-88: restore the contacts of one arbiter into the contact buffer.\<close>

definition restoreArbiter :: "world \<Rightarrow> nat \<Rightarrow> world option" where
  "restoreArbiter w arb =
     do {
       A \<leftarrow> arbH w arb;
       let n = numContacts A;
       let old = contacts A;
       let dst = cpContactBufferGetArray w;
       let w1 = w\<lparr>arbH := (arbH w)(arb \<mapsto> A\<lparr>contacts := dst\<rparr>)\<rparr>;
       w2 \<leftarrow> memcpy w1 dst old n;
       let w3 = cpSpacePushContacts w2 n;
       A3 \<leftarrow> arbH w3 arb;
       let w4 = w3\<lparr>contactSet :=
                     cpHashSetInsert (contactSet w3) (CP_HASH_PAIR (arb_a A3) (arb_b A3)) arb\<rparr>;
       cpfree w4 old
     }"

partial_function (option) activateArbiters :: "world \<Rightarrow> nat \<Rightarrow> nat option \<Rightarrow> world option" where
  "activateArbiters w body ap =
     (case ap of
        None \<Rightarrow> Some w
      | Some arb \<Rightarrow>
          do {
            prim \<leftarrow> arbiterPrimary w body arb;
            w1 \<leftarrow> (if prim then restoreArbiter w arb else Some w);
            nxt \<leftarrow> arbiterNext w1 body arb;
            activateArbiters w1 body nxt
          })"

text \<open>The constraint traversals (lines 92-95 and 123-126).\<close>

definition constraintPrimary :: "world \<Rightarrow> nat \<Rightarrow> nat \<Rightarrow> bool option" where
  "constraintPrimary w body c =
     do {
       C \<leftarrow> conH w c;
       if con_a C = body then Some True
       else do { other \<leftarrow> bodyH w (con_a C); Some (cpBodyIsStatic other) }
     }"

definition constraintNext :: "world \<Rightarrow> nat \<Rightarrow> nat \<Rightarrow> nat option option" where
  "constraintNext w body c =
     do { C \<leftarrow> conH w c; Some (if con_a C = body then con_nextA C else con_nextB C) }"

partial_function (option) activateConstraints :: "world \<Rightarrow> nat \<Rightarrow> nat option \<Rightarrow> world option" where
  "activateConstraints w body cp =
     (case cp of
        None \<Rightarrow> Some w
      | Some c \<Rightarrow>
          do {
            prim \<leftarrow> constraintPrimary w body c;
            let w1 = (if prim then w\<lparr>constraints := cpArrayPush (constraints w) c\<rparr> else w);
            nxt \<leftarrow> constraintNext w1 body c;
            activateConstraints w1 body nxt
          })"

definition cpSpaceActivateBody :: "world \<Rightarrow> nat \<Rightarrow> world option" where
  "cpSpaceActivateBody w body =
     (if locked w then Some (w\<lparr>rousedBodies := cpArrayPush (rousedBodies w) body\<rparr>)
      else
        do {
          let w1 = w\<lparr>bodies := cpArrayPush (bodies w) body\<rparr>;
          B1 \<leftarrow> bodyH w1 body;
          w2 \<leftarrow> activateShapes w1 (shapeList B1);
          B2 \<leftarrow> bodyH w2 body;
          w3 \<leftarrow> activateArbiters w2 body (arbiterList B2);
          B3 \<leftarrow> bodyH w3 body;
          activateConstraints w3 body (constraintList B3)
        })"

text \<open>\<^verbatim>\<open>cpSpaceDeactivateBody\<close>: its three loops and the body of the arbiter loop (lines 109-119).\<close>

partial_function (option) deactivateShapes :: "world \<Rightarrow> nat option \<Rightarrow> world option" where
  "deactivateShapes w sp =
     (case sp of
        None \<Rightarrow> Some w
      | Some shape \<Rightarrow>
          (case shapeH w shape of
             None \<Rightarrow> None
           | Some S \<Rightarrow>
               deactivateShapes
                 (w\<lparr>activeShapes := cpSpatialIndexRemove (activeShapes w) shape (hashid S),
                    staticShapes := cpSpatialIndexInsert (staticShapes w) shape (hashid S)\<rparr>)
                 (shape_next S)))"

definition saveArbiter :: "world \<Rightarrow> nat \<Rightarrow> world option" where
  "saveArbiter w arb =
     do {
       A \<leftarrow> arbH w arb;
       let w1 = w\<lparr>contactSet := cpHashSetRemove (contactSet w) (CP_HASH_PAIR (arb_a A) (arb_b A)),
                  arbiters := cpArrayDeleteObj (arbiters w) arb\<rparr>;
       A1 \<leftarrow> arbH w1 arb;
       let (block, w2) = cpmalloc w1 (numContacts A1);
       w3 \<leftarrow> memcpy w2 block (contacts A1) (numContacts A1);
       A3 \<leftarrow> arbH w3 arb;
       Some (w3\<lparr>arbH := (arbH w3)(arb \<mapsto> A3\<lparr>contacts := block\<rparr>)\<rparr>)
     }"

partial_function (option) deactivateArbiters :: "world \<Rightarrow> nat \<Rightarrow> nat option \<Rightarrow> world option" where
  "deactivateArbiters w body ap =
     (case ap of
        None \<Rightarrow> Some w
      | Some arb \<Rightarrow>
          do {
            prim \<leftarrow> arbiterPrimary w body arb;
            w1 \<leftarrow> (if prim then saveArbiter w arb else Some w);
            nxt \<leftarrow> arbiterNext w1 body arb;
            deactivateArbiters w1 body nxt
          })"

partial_function (option) deactivateConstraints :: "world \<Rightarrow> nat \<Rightarrow> nat option \<Rightarrow> world option" where
  "deactivateConstraints w body cp =
     (case cp of
        None \<Rightarrow> Some w
      | Some c \<Rightarrow>
          do {
            prim \<leftarrow> constraintPrimary w body c;
            let w1 = (if prim then w\<lparr>constraints := cpArrayDeleteObj (constraints w) c\<rparr> else w);
            nxt \<leftarrow> constraintNext w1 body c;
            deactivateConstraints w1 body nxt
          })"

definition cpSpaceDeactivateBody :: "world \<Rightarrow> nat \<Rightarrow> world option" where
  "cpSpaceDeactivateBody w body =
     do {
       B1 \<leftarrow> bodyH w body;
       w2 \<leftarrow> deactivateShapes w (shapeList B1);
       B2 \<leftarrow> bodyH w2 body;
       w3 \<leftarrow> deactivateArbiters w2 body (arbiterList B2);
       B3 \<leftarrow> bodyH w3 body;
       deactivateConstraints w3 body (constraintList B3)
     }"

subsection \<open>Waking a component\<close>

text \<open>The do-while of \<^verbatim>\<open>componentActivate\<close> (lines 138-145), entered at \<open>body\<close>.\<close>

partial_function (option) componentActivate_ring :: "world \<Rightarrow> nat \<Rightarrow> nat \<Rightarrow> world option" where
  "componentActivate_ring w croot body =
     (case bodyH w body of
        None \<Rightarrow> None
      | Some B \<Rightarrow>
          do {
            let nxt = next (node B);
            let w1 = w\<lparr>bodyH := (bodyH w)(body \<mapsto>
                         B\<lparr>node := \<lparr>parent = None, next = None, rank = 0, idleTime = 0\<rparr>\<rparr>)\<rparr>;
            w2 \<leftarrow> cpSpaceActivateBody w1 body;
            (case nxt of
               None \<Rightarrow> None
             | Some n \<Rightarrow> if n = croot then Some w2 else componentActivate_ring w2 croot n)
          })"

definition componentActivate :: "world \<Rightarrow> nat \<Rightarrow> world option" where
  "componentActivate w croot =
     do {
       R \<leftarrow> bodyH w croot;
       if \<not> cpBodyIsSleeping R then Some w
       else if \<not> space R then None
       else
         do {
           w1 \<leftarrow> componentActivate_ring w croot croot;
           Some (w1\<lparr>sleepingComponents := cpArrayDeleteObj (sleepingComponents w1) croot\<rparr>)
         }
     }"

definition cpBodyActivate :: "world \<Rightarrow> nat \<Rightarrow> world option" where
  "cpBodyActivate w body =
     do {
       (croot, h) \<leftarrow> componentNodeRoot (bodyH w) body;
       componentActivate (w\<lparr>bodyH := h\<rparr>) croot
     }"

subsection \<open>Building the forest and the rings\<close>

text \<open>
  \<^verbatim>\<open>mergeBodies\<close>; the array \<^verbatim>\<open>rogueBodies\<close> is local to
  \<^verbatim>\<open>cpSpaceProcessComponents\<close> and is passed and returned beside the world.
\<close>

definition mergeBodies ::
    "world \<Rightarrow> nat list \<Rightarrow> nat list \<Rightarrow> nat \<Rightarrow> nat \<Rightarrow> (world \<times> nat list) option" where
  "mergeBodies w components rogueBodies a b =
     do {
       A \<leftarrow> bodyH w a;
       if cpBodyIsStatic A then Some (w, rogueBodies)
       else
         do {
           B \<leftarrow> bodyH w b;
           if cpBodyIsStatic B then Some (w, rogueBodies)
           else
             do {
               (a_root, h1) \<leftarrow> componentNodeRoot (bodyH w) a;
               (b_root, h2) \<leftarrow> componentNodeRoot h1 b;
               let w2 = w\<lparr>bodyH := h2\<rparr>;
               Ra \<leftarrow> bodyH w2 a_root;
               Rb \<leftarrow> bodyH w2 b_root;
               let a_sleep = cpBodyIsSleeping Ra;
               let b_sleep = cpBodyIsSleeping Rb;
               w3 \<leftarrow> (if a_sleep \<or> b_sleep
                      then do { w' \<leftarrow> componentActivate w2 a_root; componentActivate w' b_root }
                      else Some w2);
               A3 \<leftarrow> bodyH w3 a;
               (w4, rogues4) \<leftarrow>
                 (if cpBodyIsRogue A3
                  then do {
                         B' \<leftarrow> bodyH w3 b;
                         Some (w3\<lparr>bodyH := (bodyH w3)(b \<mapsto> B'\<lparr>node := (node B')\<lparr>idleTime := 0\<rparr>\<rparr>)\<rparr>,
                               cpArrayPush rogueBodies a)
                       }
                  else Some (w3, rogueBodies));
               B4 \<leftarrow> bodyH w4 b;
               (w5, rogues5) \<leftarrow>
                 (if cpBodyIsRogue B4
                  then do {
                         A' \<leftarrow> bodyH w4 a;
                         Some (w4\<lparr>bodyH := (bodyH w4)(a \<mapsto> A'\<lparr>node := (node A')\<lparr>idleTime := 0\<rparr>\<rparr>)\<rparr>,
                               cpArrayPush rogues4 b)
                       }
                  else Some (w4, rogues4));
               h6 \<leftarrow> componentNodeMerge (bodyH w5) a_root b_root;
               Some (w5\<lparr>bodyH := h6\<rparr>, rogues5)
             }
         }
     }"

text \<open>The do-while of \<^verbatim>\<open>componentActive\<close> (lines 184-187), entered at \<open>body\<close>.\<close>

partial_function (option) componentActive_ring ::
    "(nat \<rightharpoonup> cpBody) \<Rightarrow> nat \<Rightarrow> nat \<Rightarrow> real \<Rightarrow> bool option" where
  "componentActive_ring h croot body threshold =
     (case h body of
        None \<Rightarrow> None
      | Some B \<Rightarrow>
          if idleTime (node B) < threshold then Some True
          else (case next (node B) of
                  None \<Rightarrow> None
                | Some n \<Rightarrow> if n = croot then Some False
                            else componentActive_ring h croot n threshold))"

definition componentActive :: "(nat \<rightharpoonup> cpBody) \<Rightarrow> nat \<Rightarrow> real \<Rightarrow> bool option" where
  "componentActive h croot threshold = componentActive_ring h croot croot threshold"

definition addToComponent ::
    "(nat \<rightharpoonup> cpBody) \<Rightarrow> nat \<Rightarrow> nat list \<Rightarrow> ((nat \<rightharpoonup> cpBody) \<times> nat list) option" where
  "addToComponent h body components =
     do {
       B \<leftarrow> h body;
       if next (node B) \<noteq> None then Some (h, components)
       else
         do {
           (croot, h1) \<leftarrow> componentNodeRoot h body;
           R \<leftarrow> h1 croot;
           (case next (node R) of
              None \<Rightarrow>
                do {
                  let components1 = cpArrayPush components croot;
                  B1 \<leftarrow> h1 body;
                  let h2 = h1(body \<mapsto> B1\<lparr>node := (node B1)\<lparr>next := Some croot\<rparr>\<rparr>);
                  R2 \<leftarrow> h2 croot;
                  Some (h2(croot \<mapsto> R2\<lparr>node := (node R2)\<lparr>next := Some body\<rparr>\<rparr>), components1)
                }
            | Some nxt \<Rightarrow>
                if croot \<noteq> body then
                  do {
                    B1 \<leftarrow> h1 body;
                    let h2 = h1(body \<mapsto> B1\<lparr>node := (node B1)\<lparr>next := Some nxt\<rparr>\<rparr>);
                    R2 \<leftarrow> h2 croot;
                    Some (h2(croot \<mapsto> R2\<lparr>node := (node R2)\<lparr>next := Some body\<rparr>\<rparr>), components)
                  }
                else Some (h1, components))
         }
     }"

definition cpBodyPushArbiter :: "world \<Rightarrow> nat \<Rightarrow> nat \<Rightarrow> world option" where
  "cpBodyPushArbiter w body arb =
     do {
       B \<leftarrow> bodyH w body;
       if \<not> cpBodyIsStatic B \<and> \<not> cpBodyIsRogue B then
         do {
           A \<leftarrow> arbH w arb;
           let w1 = w\<lparr>arbH := (arbH w)(arb \<mapsto> A\<lparr>nextA := arbiterList B\<rparr>)\<rparr>;
           B1 \<leftarrow> bodyH w1 body;
           Some (w1\<lparr>bodyH := (bodyH w1)(body \<mapsto> B1\<lparr>arbiterList := Some arb\<rparr>)\<rparr>)
         }
       else Some w
     }"

subsection \<open>The per-step driver\<close>

text \<open>Lines 238-245: the idle update and arbiter-list reset of one body, then of all.\<close>

definition updateIdle :: "world \<Rightarrow> real \<Rightarrow> real \<Rightarrow> nat \<Rightarrow> world option" where
  "updateIdle w dvsq dt body =
     do {
       B \<leftarrow> bodyH w body;
       let thresh = (if dvsq \<noteq> 0 then mass B * dvsq else 0);
       let B1 = B\<lparr>node := (node B)\<lparr>idleTime :=
                       (if kinetic B > thresh then 0 else idleTime (node B) + dt)\<rparr>\<rparr>;
       Some (w\<lparr>bodyH := (bodyH w)(body \<mapsto> B1\<lparr>arbiterList := None\<rparr>)\<rparr>)
     }"

fun updateIdleAll :: "world \<Rightarrow> real \<Rightarrow> real \<Rightarrow> nat list \<Rightarrow> world option" where
  "updateIdleAll w dvsq dt [] = Some w"
| "updateIdleAll w dvsq dt (body # rest) =
     do { w1 \<leftarrow> updateIdle w dvsq dt body; updateIdleAll w1 dvsq dt rest }"

text \<open>
  Lines 248-255: the loop over the arbiters. Its bound is read once and nothing in the
  loop writes \<^verbatim>\<open>space->arbiters\<close>, so it runs over the array as it is on entry.
\<close>

definition mergeArbiter :: "world \<Rightarrow> nat list \<Rightarrow> nat list \<Rightarrow> nat \<Rightarrow> (world \<times> nat list) option" where
  "mergeArbiter w components rogueBodies arb =
     do {
       A \<leftarrow> arbH w arb;
       Sa \<leftarrow> shapeH w (arb_a A);
       Sb \<leftarrow> shapeH w (arb_b A);
       (w1, rogues1) \<leftarrow> mergeBodies w components rogueBodies (shape_body Sa) (shape_body Sb);
       A1 \<leftarrow> arbH w1 arb;
       Sa1 \<leftarrow> shapeH w1 (arb_a A1);
       w2 \<leftarrow> cpBodyPushArbiter w1 (shape_body Sa1) arb;
       A2 \<leftarrow> arbH w2 arb;
       Sb2 \<leftarrow> shapeH w2 (arb_b A2);
       w3 \<leftarrow> cpBodyPushArbiter w2 (shape_body Sb2) arb;
       Some (w3, rogues1)
     }"

fun mergeArbiters :: "world \<Rightarrow> nat list \<Rightarrow> nat list \<Rightarrow> nat list \<Rightarrow> (world \<times> nat list) option" where
  "mergeArbiters w components rogueBodies [] = Some (w, rogueBodies)"
| "mergeArbiters w components rogueBodies (arb # rest) =
     do {
       (w1, rogues1) \<leftarrow> mergeArbiter w components rogueBodies arb;
       mergeArbiters w1 components rogues1 rest
     }"

text \<open>
  Lines 257-260: the loop over the constraints. \<^verbatim>\<open>constraints->num\<close> is read at every
  iteration and waking a body appends to the array, so the loop is indexed.
\<close>

partial_function (option) mergeConstraints ::
    "world \<Rightarrow> nat list \<Rightarrow> nat list \<Rightarrow> nat \<Rightarrow> (world \<times> nat list) option" where
  "mergeConstraints w components rogueBodies j =
     (if j < length (constraints w) then
        do {
          C \<leftarrow> conH w (constraints w ! j);
          (w1, rogues1) \<leftarrow> mergeBodies w components rogueBodies (con_a C) (con_b C);
          mergeConstraints w1 components rogues1 (Suc j)
        }
      else Some (w, rogueBodies))"

text \<open>Lines 263-264: \<^verbatim>\<open>addToComponent\<close> for every entry of an array.\<close>

fun addAllToComponent ::
    "(nat \<rightharpoonup> cpBody) \<Rightarrow> nat list \<Rightarrow> nat list \<Rightarrow> ((nat \<rightharpoonup> cpBody) \<times> nat list) option" where
  "addAllToComponent h [] components = Some (h, components)"
| "addAllToComponent h (body # rest) components =
     do {
       (h1, components1) \<leftarrow> addToComponent h body components;
       addAllToComponent h1 rest components1
     }"

text \<open>Lines 271-277: the ring of an active component is copied to \<^verbatim>\<open>newBodies\<close> and cleared.\<close>

partial_function (option) republish_ring ::
    "world \<Rightarrow> nat \<Rightarrow> nat \<Rightarrow> nat list \<Rightarrow> (world \<times> nat list) option" where
  "republish_ring w croot body newBodies =
     (case bodyH w body of
        None \<Rightarrow> None
      | Some B \<Rightarrow>
          do {
            let nxt = next (node B);
            let newBodies1 = (if \<not> cpBodyIsRogue B then cpArrayPush newBodies body else newBodies);
            let w1 = w\<lparr>bodyH := (bodyH w)(body \<mapsto>
                         B\<lparr>node := \<lparr>parent = None, next = None, rank = 0,
                                    idleTime = idleTime (node B)\<rparr>\<rparr>)\<rparr>;
            (case nxt of
               None \<Rightarrow> None
             | Some n \<Rightarrow> if n = croot then Some (w1, newBodies1)
                         else republish_ring w1 croot n newBodies1)
          })"

text \<open>Lines 279-282: every member of a ring that may sleep is deactivated.\<close>

partial_function (option) deactivate_ring :: "world \<Rightarrow> nat \<Rightarrow> nat \<Rightarrow> world option" where
  "deactivate_ring w croot body =
     (case bodyH w body of
        None \<Rightarrow> None
      | Some B \<Rightarrow>
          do {
            let nxt = next (node B);
            w1 \<leftarrow> cpSpaceDeactivateBody w body;
            (case nxt of
               None \<Rightarrow> None
             | Some n \<Rightarrow> if n = croot then Some w1 else deactivate_ring w1 croot n)
          })"

text \<open>Lines 268-285: the verdict on one component, then on all (lines 267-286).\<close>

definition processComponent :: "world \<Rightarrow> nat list \<Rightarrow> nat \<Rightarrow> (world \<times> nat list) option" where
  "processComponent w newBodies croot =
     do {
       active \<leftarrow> componentActive (bodyH w) croot (sleepTimeThreshold w);
       if active then republish_ring w croot croot newBodies
       else
         do {
           w1 \<leftarrow> deactivate_ring w croot croot;
           Some (w1\<lparr>sleepingComponents := cpArrayPush (sleepingComponents w1) croot\<rparr>, newBodies)
         }
     }"

fun processComponentsAll :: "world \<Rightarrow> nat list \<Rightarrow> nat list \<Rightarrow> (world \<times> nat list) option" where
  "processComponentsAll w newBodies [] = Some (w, newBodies)"
| "processComponentsAll w newBodies (croot # rest) =
     do {
       (w1, newBodies1) \<leftarrow> processComponent w newBodies croot;
       processComponentsAll w1 newBodies1 rest
     }"

text \<open>
  Lines 227-264 of \<^verbatim>\<open>cpSpaceProcessComponents\<close>: everything before the verdict loop.
  The result is the world with the forest and the rings built, and the array
  \<^verbatim>\<open>components\<close>.
\<close>

definition buildComponents :: "world \<Rightarrow> real \<Rightarrow> (world \<times> nat list) option" where
  "buildComponents w dt =
     do {
       let rogueBodies = [];
       let components = [];
       let dv = idleSpeedThreshold w;
       let dvsq = (if dv \<noteq> 0 then dv * dv else cpvdot (gravity w) (gravity w) * dt * dt);
       w1 \<leftarrow> updateIdleAll w dvsq dt (bodies w);
       (w2, rogues2) \<leftarrow> mergeArbiters w1 components rogueBodies (arbiters w1);
       (w3, rogues3) \<leftarrow> mergeConstraints w2 components rogues2 0;
       (h4, components4) \<leftarrow> addAllToComponent (bodyH w3) (bodies w3) components;
       (h5, components5) \<leftarrow> addAllToComponent h4 rogues3 components4;
       Some (w3\<lparr>bodyH := h5\<rparr>, components5)
     }"

definition cpSpaceProcessComponents :: "world \<Rightarrow> real \<Rightarrow> world option" where
  "cpSpaceProcessComponents w dt =
     do {
       (w5, components) \<leftarrow> buildComponents w dt;
       (w6, newBodies) \<leftarrow> processComponentsAll w5 [] components;
       Some (w6\<lparr>bodies := newBodies\<rparr>)
     }"

subsection \<open>Explicit sleep\<close>

text \<open>Line 311: \<^verbatim>\<open>cpShapeUpdate\<close> for every shape of the body.\<close>

partial_function (option) updateShapes :: "world \<Rightarrow> nat \<Rightarrow> nat option \<Rightarrow> world option" where
  "updateShapes w body sp =
     (case sp of
        None \<Rightarrow> Some w
      | Some shape \<Rightarrow>
          do {
            S \<leftarrow> shapeH w shape;
            B \<leftarrow> bodyH w body;
            updateShapes (w\<lparr>shapeH := (shapeH w)(shape \<mapsto> S\<lparr>cached := Some (pos B, rot B)\<rparr>)\<rparr>)
              body (shape_next S)
          })"

definition cpBodySleepWithGroup :: "world \<Rightarrow> nat \<Rightarrow> nat option \<Rightarrow> world option" where
  "cpBodySleepWithGroup w body grp =
     do {
       B \<leftarrow> bodyH w body;
       if cpBodyIsStatic B \<or> cpBodyIsRogue B then None
       else if \<not> space B then None
       else if locked w then None
       else
         do {
           group_ok \<leftarrow> (case grp of
                          None \<Rightarrow> Some True
                        | Some g \<Rightarrow> do { G \<leftarrow> bodyH w g; Some (cpBodyIsSleeping G) });
           if \<not> group_ok then None
           else if cpBodyIsSleeping B then Some w
           else
             do {
               w1 \<leftarrow> updateShapes w body (shapeList B);
               w2 \<leftarrow> cpSpaceDeactivateBody w1 body;
               w3 \<leftarrow>
                 (case grp of
                    Some g \<Rightarrow>
                      do {
                        (croot, h) \<leftarrow> componentNodeRoot (bodyH w2) g;
                        R \<leftarrow> h croot;
                        B2 \<leftarrow> h body;
                        let h1 = h(body \<mapsto> B2\<lparr>node := \<lparr>parent = Some croot, next = next (node R),
                                                        rank = 0, idleTime = 0\<rparr>\<rparr>);
                        R1 \<leftarrow> h1 croot;
                        Some (w2\<lparr>bodyH := h1(croot \<mapsto> R1\<lparr>node := (node R1)\<lparr>next := Some body\<rparr>\<rparr>)\<rparr>)
                      }
                  | None \<Rightarrow>
                      do {
                        B2 \<leftarrow> bodyH w2 body;
                        let w' = w2\<lparr>bodyH := (bodyH w2)(body \<mapsto>
                                     B2\<lparr>node := \<lparr>parent = None, next = Some body,
                                                 rank = 0, idleTime = 0\<rparr>\<rparr>)\<rparr>;
                        Some (w'\<lparr>sleepingComponents := cpArrayPush (sleepingComponents w') body\<rparr>)
                      });
               Some (w3\<lparr>bodies := cpArrayDeleteObj (bodies w3) body\<rparr>)
             }
         }
     }"

definition cpBodySleep :: "world \<Rightarrow> nat \<Rightarrow> world option" where
  "cpBodySleep w body = cpBodySleepWithGroup w body None"

section \<open>Auxiliary notions and example worlds\<close>

definition exNode :: cpComponentNode where
  "exNode = \<lparr>parent = None, next = None, rank = 0, idleTime = 0\<rparr>"

definition exBody :: cpBody where
  "exBody = \<lparr>mass = 1, kinetic = 0, pos = (0, 0), rot = (1, 0), static = False, space = True,
             shapeList = None, arbiterList = None, constraintList = None, node = exNode\<rparr>"

definition exWorld :: world where
  "exWorld = \<lparr>bodyH = Map.empty, shapeH = Map.empty, arbH = Map.empty, conH = Map.empty,
              blocks = [], contactBuffer = (\<lambda>i. (0, 0, 0, 0)), contactBufferNum = 0,
              locked = False, bodies = [], rousedBodies = [], sleepingComponents = [],
              activeShapes = [], staticShapes = [], arbiters = [], constraints = [],
              contactSet = Map.empty, idleSpeedThreshold = 0, sleepTimeThreshold = 1 / 2,
              gravity = (0, - 10)\<rparr>"

fun parentChain :: "(nat \<rightharpoonup> cpBody) \<Rightarrow> nat \<Rightarrow> nat list \<Rightarrow> nat \<Rightarrow> bool" where
  "parentChain h b [] r =
     (case h b of None \<Rightarrow> False | Some B \<Rightarrow> parent (node B) = None \<and> b = r)"
| "parentChain h b (x # xs) r =
     (x = b \<and> (case h b of
                 None \<Rightarrow> False
               | Some B \<Rightarrow> (case parent (node B) of
                              None \<Rightarrow> False
                            | Some p \<Rightarrow> parentChain h p xs r)))"

definition compressed :: "(nat \<rightharpoonup> cpBody) \<Rightarrow> nat list \<Rightarrow> nat \<Rightarrow> (nat \<rightharpoonup> cpBody)" where
  "compressed h xs r =
     (\<lambda>x. if x \<in> set xs then map_option (\<lambda>B. B\<lparr>node := (node B)\<lparr>parent := Some r\<rparr>\<rparr>) (h x)
          else h x)"

definition chainHeap :: "nat \<rightharpoonup> cpBody" where
  "chainHeap = [1 \<mapsto> exBody\<lparr>node := exNode\<lparr>parent := Some 2\<rparr>\<rparr>,
                2 \<mapsto> exBody\<lparr>node := exNode\<lparr>parent := Some 3\<rparr>\<rparr>,
                3 \<mapsto> exBody]"

definition lockedWorld :: world where
  "lockedWorld = exWorld\<lparr>bodyH := [1 \<mapsto> exBody], locked := True, bodies := [1]\<rparr>"

definition staticWorld :: world where
  "staticWorld = exWorld\<lparr>bodyH := [1 \<mapsto> exBody, 2 \<mapsto> exBody\<lparr>static := True\<rparr>], bodies := [1]\<rparr>"

definition exShape :: "nat \<Rightarrow> nat \<Rightarrow> cpShape" where
  "exShape b hid = \<lparr>shape_body = b, shape_next = None, hashid = hid, cached = None\<rparr>"

definition exArbiter :: "nat \<Rightarrow> nat \<Rightarrow> cpArbiter" where
  "exArbiter sa sb = \<lparr>arb_a = sa, arb_b = sb, nextA = None, nextB = None,
                      numContacts = 0, contacts = NullContacts\<rparr>"

definition pairWorld :: world where
  "pairWorld = exWorld\<lparr>
     bodyH := [1 \<mapsto> exBody\<lparr>shapeList := Some 11\<rparr>, 2 \<mapsto> exBody\<lparr>shapeList := Some 12\<rparr>],
     shapeH := [11 \<mapsto> (exShape 1 11)\<lparr>shape_next := Some 13\<rparr>, 13 \<mapsto> exShape 1 13,
                12 \<mapsto> (exShape 2 12)\<lparr>shape_next := Some 14\<rparr>, 14 \<mapsto> exShape 2 14],
     arbH := [21 \<mapsto> exArbiter 11 12, 22 \<mapsto> exArbiter 13 14],
     bodies := [1, 2], arbiters := [21, 22]\<rparr>"

definition idleWorld :: world where
  "idleWorld = exWorld\<lparr>bodyH := [1 \<mapsto> exBody], bodies := [1]\<rparr>"

definition ringWorld :: world where
  "ringWorld = exWorld\<lparr>bodyH := [1 \<mapsto> exBody\<lparr>node := exNode\<lparr>next := Some 1, idleTime := 1\<rparr>\<rparr>]\<rparr>"

partial_function (option) ringMembers :: "(nat \<rightharpoonup> cpBody) \<Rightarrow> nat \<Rightarrow> nat \<Rightarrow> nat list option" where
  "ringMembers h croot body =
     (case h body of
        None \<Rightarrow> None
      | Some B \<Rightarrow>
          (case next (node B) of
             None \<Rightarrow> None
           | Some n \<Rightarrow> if n = croot then Some [body]
                       else do { ms \<leftarrow> ringMembers h croot n; Some (body # ms) }))"

partial_function (option) arbiterChain :: "world \<Rightarrow> nat \<Rightarrow> nat option \<Rightarrow> nat list option" where
  "arbiterChain w body ap =
     (case ap of
        None \<Rightarrow> Some []
      | Some arb \<Rightarrow>
          do {
            nxt \<leftarrow> arbiterNext w body arb;
            rest \<leftarrow> arbiterChain w body nxt;
            Some (arb # rest)
          })"

definition cleared :: "(nat \<rightharpoonup> cpBody) \<Rightarrow> nat \<Rightarrow> bool" where
  "cleared h b =
     (case h b of
        None \<Rightarrow> False
      | Some B \<Rightarrow> parent (node B) = None \<and> next (node B) = None \<and> rank (node B) = 0)"

definition idleOf :: "(nat \<rightharpoonup> cpBody) \<Rightarrow> nat \<Rightarrow> real option" where
  "idleOf h b = map_option (\<lambda>B. idleTime (node B)) (h b)"

definition deactivation_frame :: "world \<Rightarrow> world \<Rightarrow> bool" where
  "deactivation_frame w w' =
     (bodyH w' = bodyH w \<and> shapeH w' = shapeH w \<and> conH w' = conH w
      \<and> bodies w' = bodies w \<and> rousedBodies w' = rousedBodies w
      \<and> sleepingComponents w' = sleepingComponents w \<and> locked w' = locked w
      \<and> sleepTimeThreshold w' = sleepTimeThreshold w)"


fun restoreAll :: "world \<Rightarrow> nat \<Rightarrow> nat list \<Rightarrow> world option" where
  "restoreAll w body [] = Some w"
| "restoreAll w body (arb # rest) =
     do {
       prim \<leftarrow> arbiterPrimary w body arb;
       w1 \<leftarrow> (if prim then restoreArbiter w arb else Some w);
       restoreAll w1 body rest
     }"

definition same_links :: "world \<Rightarrow> world \<Rightarrow> bool" where
  "same_links w w' =
     (bodyH w' = bodyH w \<and> shapeH w' = shapeH w \<and> locked w' = locked w
      \<and> (\<forall>x. map_option (\<lambda>A. A\<lparr>contacts := NullContacts\<rparr>) (arbH w' x)
             = map_option (\<lambda>A. A\<lparr>contacts := NullContacts\<rparr>) (arbH w x)))"

definition pairKey :: "world \<Rightarrow> nat \<Rightarrow> (nat \<times> nat) option" where
  "pairKey w arb = map_option (\<lambda>A. CP_HASH_PAIR (arb_a A) (arb_b A)) (arbH w arb)"


definition restore_rel :: "world \<Rightarrow> world \<Rightarrow> nat set \<Rightarrow> (nat \<times> nat) set \<Rightarrow> bool" where
  "restore_rel w w' X Ks =
     (same_links w w' \<and> (\<forall>y. y \<notin> X \<longrightarrow> arbH w' y = arbH w y)
      \<and> length (blocks w') = length (blocks w)
      \<and> (\<forall>j. blocks w' ! j = blocks w ! j \<or> blocks w' ! j = None)
      \<and> (\<forall>i < contactBufferNum w. contactBuffer w' i = contactBuffer w i)
      \<and> contactBufferNum w \<le> contactBufferNum w'
      \<and> (\<forall>key. key \<notin> Ks \<longrightarrow> contactSet w' key = contactSet w key))"

definition contact_frame :: "world \<Rightarrow> world \<Rightarrow> bool" where
  "contact_frame w w' =
     (bodyH w' = bodyH w \<and> shapeH w' = shapeH w \<and> arbH w' = arbH w \<and> blocks w' = blocks w
      \<and> contactBuffer w' = contactBuffer w \<and> contactBufferNum w' = contactBufferNum w
      \<and> contactSet w' = contactSet w \<and> locked w' = locked w)"

definition contactWorld :: world where
  "contactWorld = exWorld\<lparr>
     bodyH := [1 \<mapsto> exBody\<lparr>shapeList := Some 11, arbiterList := Some 21\<rparr>,
               2 \<mapsto> exBody\<lparr>shapeList := Some 12, arbiterList := Some 21\<rparr>],
     shapeH := [11 \<mapsto> exShape 1 11, 12 \<mapsto> exShape 2 12],
     arbH := [21 \<mapsto> (exArbiter 11 12)\<lparr>numContacts := 1, contacts := BufferAt 0\<rparr>],
     contactBuffer := (\<lambda>i. if i = 0 then (1, 2, 3, 4) else (0, 0, 0, 0)),
     contactBufferNum := 1,
     bodies := [1, 2], arbiters := [21], activeShapes := [(11, 11), (12, 12)],
     contactSet := [(11, 12) \<mapsto> 21]\<rparr>"


subsection \<open>The forest and the rings, seen without the heap\<close>

text \<open>
  \<open>pchain P b xs r\<close>: following the parent links \<open>P\<close> from \<open>b\<close> visits exactly \<open>xs\<close>
  and ends in the root \<open>r\<close>. \<open>ringPath N b ms r\<close>: following the ring links \<open>N\<close> from
  \<open>b\<close> visits exactly \<open>ms\<close>, the last of which links to \<open>r\<close>; this is the walk of the
  do-while loops over a component.
\<close>

fun pchain :: "(nat \<Rightarrow> nat option) \<Rightarrow> nat \<Rightarrow> nat list \<Rightarrow> nat \<Rightarrow> bool" where
  "pchain P b [] r = (b = r \<and> P b = None)"
| "pchain P b (x # xs) r = (x = b \<and> (case P b of None \<Rightarrow> False | Some q \<Rightarrow> pchain P q xs r))"

fun ringPath :: "(nat \<Rightarrow> nat option) \<Rightarrow> nat \<Rightarrow> nat list \<Rightarrow> nat \<Rightarrow> bool" where
  "ringPath N b [] r = False"
| "ringPath N b (x # xs) r =
     (x = b \<and> (case N b of
                 None \<Rightarrow> False
               | Some n \<Rightarrow> if n = r then xs = [] else ringPath N n xs r))"

definition rootOf :: "(nat \<Rightarrow> nat option) \<Rightarrow> nat \<Rightarrow> nat \<Rightarrow> bool" where
  "rootOf P b r = (\<exists>xs. pchain P b xs r)"

definition compressP :: "(nat \<Rightarrow> nat option) \<Rightarrow> nat list \<Rightarrow> nat \<Rightarrow> (nat \<Rightarrow> nat option)" where
  "compressP P xs r = (\<lambda>x. if x \<in> set xs then Some r else P x)"

text \<open>
  What the sleeping machinery reads of the bodies: the parent link \<open>vP\<close>, the ring link
  \<open>vN\<close>, whether the idle time is zero (\<open>vZ\<close>), whether the body is rogue (\<open>vR\<close>), and
  whether it is neither static nor rogue (\<open>vA\<close>).
\<close>

record view =
  vP :: "nat \<Rightarrow> nat option"
  vN :: "nat \<Rightarrow> nat option"
  vZ :: "nat \<Rightarrow> bool"
  vR :: "nat \<Rightarrow> bool"
  vA :: "nat \<Rightarrow> bool"

definition view_of :: "(nat \<rightharpoonup> cpBody) \<Rightarrow> view" where
  "view_of h =
     \<lparr>vP = (\<lambda>b. case h b of None \<Rightarrow> None | Some B \<Rightarrow> parent (node B)),
      vN = (\<lambda>b. case h b of None \<Rightarrow> None | Some B \<Rightarrow> next (node B)),
      vZ = (\<lambda>b. case h b of None \<Rightarrow> False | Some B \<Rightarrow> idleTime (node B) = 0),
      vR = (\<lambda>b. case h b of None \<Rightarrow> False | Some B \<Rightarrow> cpBodyIsRogue B),
      vA = (\<lambda>b. case h b of None \<Rightarrow> False
                 | Some B \<Rightarrow> \<not> cpBodyIsStatic B \<and> \<not> cpBodyIsRogue B)\<rparr>"

text \<open>
  The state of the forest while \<^verbatim>\<open>cpSpaceProcessComponents\<close> merges bodies; \<open>bs\<close> is
  \<^verbatim>\<open>space->bodies\<close> and \<open>rogues\<close> the array \<^verbatim>\<open>rogueBodies\<close>.
  \<^item> \<open>awake_rooted\<close>: a body that is on no ring has a root, and the root is on no ring;
  \<^item> \<open>asleep_ringed\<close>: a body on a ring is on the ring of a root, all of whose members
    have that root;
  \<^item> \<open>rogues_covered\<close>: a body in \<open>rogues\<close> is on no ring and shares its root with a body
    of \<open>bs\<close> or \<open>rogues\<close> that is on no ring and has idle time 0;
  \<^item> \<open>rogues_listed\<close>: a rogue body that has a parent or a child is in \<open>rogues\<close>;
  \<^item> \<open>bodies_bound\<close>: no body of \<open>bs\<close> is rogue;
  \<^item> \<open>rogues_awake\<close>: no rogue body is on a ring;
  \<^item> \<open>active_listed\<close>: a body that is neither static nor rogue and on no ring is in \<open>bs\<close>.
\<close>

definition awake_rooted :: "view \<Rightarrow> bool" where
  "awake_rooted v = (\<forall>b. vN v b = None \<longrightarrow> (\<exists>r. rootOf (vP v) b r \<and> vN v r = None))"

definition asleep_ringed :: "view \<Rightarrow> bool" where
  "asleep_ringed v = (\<forall>b. vN v b \<noteq> None \<longrightarrow>
               (\<exists>r ms. ringPath (vN v) r ms r \<and> b \<in> set ms \<and> (\<forall>m \<in> set ms. rootOf (vP v) m r)))"

definition rogues_covered :: "view \<Rightarrow> nat list \<Rightarrow> nat list \<Rightarrow> bool" where
  "rogues_covered v bs rogues =
     (\<forall>R \<in> set rogues. vN v R = None \<and> (\<exists>x \<in> set bs \<union> set rogues.
         vN v x = None \<and> vZ v x \<and> (\<exists>r. rootOf (vP v) x r \<and> rootOf (vP v) R r)))"

definition rogues_listed :: "view \<Rightarrow> nat list \<Rightarrow> bool" where
  "rogues_listed v rogues =
     (\<forall>b. vR v b \<and> (vP v b \<noteq> None \<or> (\<exists>y. vP v y = Some b)) \<longrightarrow> b \<in> set rogues)"

definition bodies_bound :: "view \<Rightarrow> nat list \<Rightarrow> bool" where
  "bodies_bound v bs = (\<forall>b \<in> set bs. \<not> vR v b)"

definition rogues_awake :: "view \<Rightarrow> bool" where
  "rogues_awake v = (\<forall>b. vR v b \<longrightarrow> vN v b = None)"

definition active_listed :: "view \<Rightarrow> nat list \<Rightarrow> bool" where
  "active_listed v bs = (\<forall>b. vA v b \<and> vN v b = None \<longrightarrow> b \<in> set bs)"

definition forest_inv :: "view \<Rightarrow> nat list \<Rightarrow> nat list \<Rightarrow> bool" where
  "forest_inv v bs rogues =
     (awake_rooted v \<and> asleep_ringed v \<and> rogues_covered v bs rogues \<and> rogues_listed v rogues
      \<and> bodies_bound v bs \<and> rogues_awake v \<and> active_listed v bs)"

definition space_inv :: "world \<Rightarrow> nat list \<Rightarrow> bool" where
  "space_inv w rogues = (forest_inv (view_of (bodyH w)) (bodies w) rogues \<and> \<not> locked w)"

text \<open>
  A space between two steps: it is unlocked and, no array \<^verbatim>\<open>rogueBodies\<close> being in use,
  its forest is in the state above.
\<close>

definition wf_space :: "world \<Rightarrow> bool" where
  "wf_space w = space_inv w []"

text \<open>The view after the nodes of \<open>ms\<close> are reset by \<^verbatim>\<open>componentActivate\<close>.\<close>

definition clearV :: "view \<Rightarrow> nat list \<Rightarrow> view" where
  "clearV v ms = v\<lparr>vP := (\<lambda>x. if x \<in> set ms then None else vP v x),
                   vN := (\<lambda>x. if x \<in> set ms then None else vN v x),
                   vZ := (\<lambda>x. x \<in> set ms \<or> vZ v x)\<rparr>"

definition activation_frame :: "world \<Rightarrow> world \<Rightarrow> bool" where
  "activation_frame w w' =
     (bodyH w' = bodyH w \<and> locked w' = locked w
      \<and> sleepTimeThreshold w' = sleepTimeThreshold w \<and> bodies w' = bodies w)"

text \<open>What waking the component of a root does to the view.\<close>

definition wake_step :: "view \<Rightarrow> nat list \<Rightarrow> view \<Rightarrow> nat list \<Rightarrow> bool" where
  "wake_step v bs v' bs' =
     (vR v' = vR v \<and> vA v' = vA v \<and> set bs \<subseteq> set bs'
      \<and> (\<forall>x. vP v x = None \<longrightarrow> vP v' x = None)
      \<and> (\<forall>x. vN v x = None \<longrightarrow> vN v' x = None)
      \<and> (\<forall>x. vZ v x \<longrightarrow> vZ v' x)
      \<and> (\<forall>x rx. vN v x = None \<and> rootOf (vP v) x rx \<longrightarrow> rootOf (vP v') x rx)
      \<and> (\<forall>x. vN v x \<noteq> None \<and> vN v' x = None \<longrightarrow> vZ v' x \<and> x \<in> set bs'))"

text \<open>Line 172 or 173 of \<^verbatim>\<open>mergeBodies\<close>: the idle time of \<open>x\<close> is zeroed when \<open>c\<close> holds.\<close>

definition zero_if :: "bool \<Rightarrow> nat \<Rightarrow> view \<Rightarrow> view" where
  "zero_if c x v = (if c then v\<lparr>vZ := (vZ v)(x := True)\<rparr> else v)"

text \<open>
  The invariant of the ring assembly (lines 263-264). \<open>v0\<close> is the view on entry,
  \<open>D\<close> the set of bodies already handed to \<^verbatim>\<open>addToComponent\<close>.
\<close>

definition ringMember :: "view \<Rightarrow> view \<Rightarrow> nat set \<Rightarrow> nat \<Rightarrow> nat \<Rightarrow> bool" where
  "ringMember v0 v D c m =
     (vN v0 m = None \<and> rootOf (vP v) m c \<and> (m \<in> D \<or> (\<exists>y. vP v0 y = Some m)))"

definition assembly_inv :: "view \<Rightarrow> view \<Rightarrow> nat list \<Rightarrow> nat set \<Rightarrow> bool" where
  "assembly_inv v0 v comps D =
     (vR v = vR v0 \<and> vZ v = vZ v0
      \<and> (\<forall>x r. rootOf (vP v0) x r \<longrightarrow> rootOf (vP v) x r)
      \<and> (\<forall>x. vN v0 x \<noteq> None \<longrightarrow> vN v x \<noteq> None)
      \<and> distinct comps
      \<and> (\<forall>c \<in> set comps. \<exists>ms. ringPath (vN v) c ms c \<and> (\<forall>m \<in> set ms. ringMember v0 v D c m))
      \<and> (\<forall>x. vN v0 x = None \<and> vN v x \<noteq> None \<longrightarrow>
             (\<exists>c \<in> set comps. \<exists>ms. ringPath (vN v) c ms c \<and> x \<in> set ms))
      \<and> (\<forall>x \<in> D. vN v0 x = None \<longrightarrow> vN v x \<noteq> None))"

text \<open>
  The invariant of the verdict loop (lines 267-286) over the components still to be
  judged: each is the root of its ring, and a ring with a rogue member has a member with
  idle time 0.
\<close>

definition ringGood :: "view \<Rightarrow> nat \<Rightarrow> nat list \<Rightarrow> bool" where
  "ringGood v c ms =
     (ringPath (vN v) c ms c \<and> (\<forall>m \<in> set ms. rootOf (vP v) m c)
      \<and> ((\<exists>m \<in> set ms. vR v m) \<longrightarrow> (\<exists>m \<in> set ms. vZ v m)))"

definition verdict_inv :: "view \<Rightarrow> nat list \<Rightarrow> bool" where
  "verdict_inv v cs = (distinct cs \<and> (\<forall>c \<in> set cs. \<exists>ms. ringGood v c ms))"

text \<open>A step of the verdict loop writes the nodes of one ring only, and no idle time.\<close>

definition changed_only :: "view \<Rightarrow> view \<Rightarrow> nat list \<Rightarrow> bool" where
  "changed_only v v' ms =
     (vR v' = vR v \<and> vZ v' = vZ v
      \<and> (\<forall>x. x \<notin> set ms \<longrightarrow> vP v' x = vP v x \<and> vN v' x = vN v x))"

text \<open>
  A body in the space touching a rogue body through one arbiter; \<open>eagerWorld\<close> is the
  same space with \<open>sleepTimeThreshold\<close> 0.
\<close>

definition rogueWorld :: world where
  "rogueWorld = exWorld\<lparr>
     bodyH := [1 \<mapsto> exBody\<lparr>shapeList := Some 11\<rparr>,
               3 \<mapsto> exBody\<lparr>space := False, shapeList := Some 13\<rparr>],
     shapeH := [11 \<mapsto> exShape 1 11, 13 \<mapsto> exShape 3 13],
     arbH := [21 \<mapsto> exArbiter 11 13],
     bodies := [1], arbiters := [21]\<rparr>"

definition eagerWorld :: world where
  "eagerWorld = rogueWorld\<lparr>sleepTimeThreshold := 0\<rparr>"

subsection \<open>Well-formed lists, saved contacts\<close>

text \<open>
  \<open>shapePath sh sp ss\<close>: the shape list that starts at \<open>sp\<close> is the finite list \<open>ss\<close>, every shape
  of which is allocated; \<open>constraintPath\<close> is the same for the constraint list of \<open>body\<close>,
  which follows \<^verbatim>\<open>nextA\<close> or \<^verbatim>\<open>nextB\<close> as lines 92 and 123 do. The arbiter list is described
  by \<open>arbiterChain\<close>.
\<close>

fun shapePath :: "(nat \<rightharpoonup> cpShape) \<Rightarrow> nat option \<Rightarrow> nat list \<Rightarrow> bool" where
  "shapePath sh sp [] = (sp = None)"
| "shapePath sh sp (s # ss) =
     (sp = Some s \<and> (case sh s of None \<Rightarrow> False | Some S \<Rightarrow> shapePath sh (shape_next S) ss))"

fun constraintPath :: "(nat \<rightharpoonup> cpConstraint) \<Rightarrow> nat \<Rightarrow> nat option \<Rightarrow> nat list \<Rightarrow> bool" where
  "constraintPath ch body cp [] = (cp = None)"
| "constraintPath ch body cp (c # cs) =
     (cp = Some c \<and> (case ch c of
                       None \<Rightarrow> False
                     | Some C \<Rightarrow> constraintPath ch body
                                  (if con_a C = body then con_nextA C else con_nextB C) cs))"

text \<open>
  \<open>heldBlock w arb = Some k\<close>: the arbiter keeps its contacts in the allocated heap block \<open>k\<close>,
  which has room for \<^verbatim>\<open>numContacts\<close> contacts: what \<open>saveArbiter\<close> (lines 116-119) leaves.
  \<open>liveContacts\<close> reads the \<^verbatim>\<open>numContacts\<close> contacts behind the arbiter's pointer.
\<close>

definition heldBlock :: "world \<Rightarrow> nat \<Rightarrow> nat option" where
  "heldBlock w arb =
     (case arbH w arb of
        None \<Rightarrow> None
      | Some A \<Rightarrow>
          (case contacts A of
             HeapBlock k \<Rightarrow>
               (if k < length (blocks w) then
                  (case blocks w ! k of
                     None \<Rightarrow> None
                   | Some cs \<Rightarrow> if numContacts A \<le> length cs then Some k else None)
                else None)
           | _ \<Rightarrow> None))"



definition restorable :: "world \<Rightarrow> nat \<Rightarrow> nat list \<Rightarrow> bool" where
  "restorable w body xs =
     ((\<forall>x \<in> set xs. arbiterPrimary w body x \<noteq> None
                    \<and> (arbiterPrimary w body x = Some True \<longrightarrow> heldBlock w x \<noteq> None))
      \<and> (\<forall>x \<in> set xs. \<forall>y \<in> set xs.
            x \<noteq> y \<and> arbiterPrimary w body x = Some True \<and> arbiterPrimary w body y = Some True
            \<longrightarrow> heldBlock w x \<noteq> heldBlock w y))"

definition constraintsOk :: "world \<Rightarrow> nat \<Rightarrow> nat list \<Rightarrow> bool" where
  "constraintsOk w body cs = (\<forall>c \<in> set cs. constraintPrimary w body c \<noteq> None)"

text \<open>
  \<open>same_structure w w'\<close>: the two worlds agree on the arbiters, the constraints, the heap
  blocks, the contact buffer, the contact set and the lock, on the owner, the successor and
  the hash id of every shape, and on the static flag, the space and the three list heads of
  every body. The arrays of the space, the spatial indexes, the component nodes and the
  cached placements may differ.
\<close>

definition same_structure :: "world \<Rightarrow> world \<Rightarrow> bool" where
  "same_structure w w' =
     (arbH w' = arbH w \<and> conH w' = conH w \<and> blocks w' = blocks w
      \<and> contactBuffer w' = contactBuffer w \<and> contactBufferNum w' = contactBufferNum w
      \<and> contactSet w' = contactSet w \<and> locked w' = locked w
      \<and> (\<forall>x. map_option (\<lambda>S. (shape_body S, shape_next S, hashid S)) (shapeH w' x)
             = map_option (\<lambda>S. (shape_body S, shape_next S, hashid S)) (shapeH w x))
      \<and> (\<forall>x. map_option (\<lambda>B. (static B, space B, shapeList B, arbiterList B, constraintList B))
               (bodyH w' x)
             = map_option (\<lambda>B. (static B, space B, shapeList B, arbiterList B, constraintList B))
               (bodyH w x)))"


text \<open>
  A forest between two steps: a body that is awake has no parent (lines 275-276 and lines
  141-142 reset the node of every body they leave awake), and every sleeping body lies on
  the ring of its root, all of whose members have that root.
\<close>

definition forest_at_rest :: "world \<Rightarrow> bool" where
  "forest_at_rest w =
     ((\<forall>b B. bodyH w b = Some B \<and> \<not> cpBodyIsSleeping B \<longrightarrow> parent (node B) = None)
      \<and> asleep_ringed (view_of (bodyH w)))"

text \<open>
  \<open>activatable w body\<close>: the three lists of \<open>body\<close> are well formed and its arbiters are
  \<open>restorable\<close>, as \<open>cpSpaceDeactivateBody\<close> leaves them.
\<close>

definition activatable :: "world \<Rightarrow> nat \<Rightarrow> bool" where
  "activatable w body =
     (\<exists>B ss arbs cons.
        bodyH w body = Some B \<and> shapePath (shapeH w) (shapeList B) ss
        \<and> arbiterChain w body (arbiterList B) = Some arbs \<and> restorable w body arbs
        \<and> constraintPath (conH w) body (constraintList B) cons \<and> constraintsOk w body cons)"

text \<open>
  Example worlds. \<open>restWorld\<close>: body 1 awake, bodies 2 and 3 asleep on one ring with root 2.
  \<open>wakeWorld\<close>: body 1 is not in \<open>bodies\<close>, its arbiter 21 holds its contact in heap block 0;
  body 2 is in \<open>bodies\<close>. \<open>cycleWorld\<close>: the same bodies, both awake and listed, the contact
  of arbiter 21 in the contact buffer.
\<close>

definition exConstraint :: "nat \<Rightarrow> nat \<Rightarrow> cpConstraint" where
  "exConstraint a b = \<lparr>con_a = a, con_b = b, con_nextA = None, con_nextB = None\<rparr>"

definition restWorld :: world where
  "restWorld = exWorld\<lparr>
     bodyH := [1 \<mapsto> exBody,
               2 \<mapsto> exBody\<lparr>node := exNode\<lparr>next := Some 3\<rparr>\<rparr>,
               3 \<mapsto> exBody\<lparr>node := exNode\<lparr>parent := Some 2, next := Some 2\<rparr>\<rparr>],
     bodies := [1], sleepingComponents := [2]\<rparr>"

definition wakeWorld :: world where
  "wakeWorld = exWorld\<lparr>
     bodyH := [1 \<mapsto> exBody\<lparr>shapeList := Some 11, arbiterList := Some 21, constraintList := Some 31\<rparr>,
               2 \<mapsto> exBody\<lparr>shapeList := Some 12, arbiterList := Some 21\<rparr>],
     shapeH := [11 \<mapsto> exShape 1 11, 12 \<mapsto> (exShape 2 12)\<lparr>shape_next := Some 13\<rparr>,
                13 \<mapsto> exShape 2 13],
     arbH := [21 \<mapsto> (exArbiter 11 12)\<lparr>nextA := Some 22, numContacts := 1, contacts := HeapBlock 0\<rparr>,
              22 \<mapsto> exArbiter 13 11],
     conH := [31 \<mapsto> exConstraint 1 2],
     blocks := [Some [(1, 2, 3, 4)]],
     bodies := [2]\<rparr>"





section \<open>Properties\<close>

subsection \<open>Find with path compression\<close>

lemma parentChain_unique:
  "parentChain h b xs r \<Longrightarrow> parentChain h b ys r' \<Longrightarrow> xs = ys \<and> r = r'"
proof (induction xs arbitrary: b ys)
  case Nil
  then show ?case by (cases ys) (auto split: option.splits)
next
  case (Cons x xs)
  then show ?case by (cases ys) (auto split: option.splits)
qed

lemma parentChain_root:
  "parentChain h b xs r \<Longrightarrow> \<exists>R. h r = Some R \<and> parent (node R) = None"
  by (induction xs arbitrary: b) (auto split: option.splits)

lemma parentChain_valid:
  "parentChain h b xs r \<Longrightarrow> x \<in> set xs \<Longrightarrow> \<exists>B p. h x = Some B \<and> parent (node B) = Some p"
  by (induction xs arbitrary: b) (auto split: option.splits)

lemma parentChain_root_notin: "parentChain h b xs r \<Longrightarrow> r \<notin> set xs"
  using parentChain_root[of h b xs r] parentChain_valid[of h b xs r r] by fastforce

lemma compressed_Cons:
  assumes "h b = Some B"
  shows "(compressed h xs r)(b \<mapsto> (the (compressed h xs r b))\<lparr>node := (node (the (compressed h xs r b)))\<lparr>parent := Some r\<rparr>\<rparr>)
            = compressed h (b # xs) r"
proof (rule ext)
  fix x
  show "((compressed h xs r)(b \<mapsto> (the (compressed h xs r b))\<lparr>node := (node (the (compressed h xs r b)))\<lparr>parent := Some r\<rparr>\<rparr>)) x
            = compressed h (b # xs) r x"
    using assms by (cases "x = b"; cases "b \<in> set xs"; simp add: compressed_def)
qed

lemma componentNodeRoot_chain:
  "parentChain h b xs r \<Longrightarrow> componentNodeRoot h b = Some (r, compressed h xs r)"
proof (induction xs arbitrary: b)
  case Nil
  then obtain B where "h b = Some B" "parent (node B) = None" "b = r"
    by (auto split: option.splits)
  then show ?case
    by (subst componentNodeRoot.simps) (simp add: compressed_def)
next
  case (Cons x xs)
  from Cons.prems obtain B p where B: "x = b" "h b = Some B" "parent (node B) = Some p"
      and ch: "parentChain h p xs r"
    by (auto split: option.splits)
  have IH: "componentNodeRoot h p = Some (r, compressed h xs r)" using Cons.IH[OF ch] .
  obtain B' where B': "compressed h xs r b = Some B'" using B(2) by (cases "b \<in> set xs") (auto simp: compressed_def)
  have "componentNodeRoot h b = Some (r, (compressed h xs r)(b \<mapsto> B'\<lparr>node := (node B')\<lparr>parent := Some r\<rparr>\<rparr>))"
    by (subst componentNodeRoot.simps) (simp add: B IH B')
  then show ?case using compressed_Cons[of h b B xs r] B' B by simp
qed

text \<open>
  Claim C9. If the parent pointers from \<open>body\<close> run through the bodies \<open>xs\<close> and end in
  \<open>r\<close>, a body without parent, then \<^verbatim>\<open>componentNodeRoot\<close> returns \<open>r\<close>, which is the
  only such end (and is \<open>body\<close> itself when \<open>body\<close> has no parent); in the heap it leaves,
  every body of \<open>xs\<close> has parent \<open>r\<close> and is otherwise as before, and every other body
  is untouched.
\<close>

theorem componentNodeRoot_path_compression:
  assumes "parentChain h body xs r"
  shows "componentNodeRoot h body = Some (r, compressed h xs r)
         \<and> (\<exists>R. h r = Some R \<and> parent (node R) = None)
         \<and> (\<forall>ys r'. parentChain h body ys r' \<longrightarrow> r' = r)
         \<and> (xs = [] \<longrightarrow> r = body)
         \<and> (\<forall>x. x \<notin> set xs \<longrightarrow> compressed h xs r x = h x)
         \<and> (\<forall>x \<in> set xs. \<exists>B. h x = Some B \<and>
                compressed h xs r x = Some (B\<lparr>node := (node B)\<lparr>parent := Some r\<rparr>\<rparr>))"
proof (intro conjI)
  show "componentNodeRoot h body = Some (r, compressed h xs r)"
    by (rule componentNodeRoot_chain[OF assms])
  show "\<exists>R. h r = Some R \<and> parent (node R) = None"
    by (rule parentChain_root[OF assms])
  show "\<forall>ys r'. parentChain h body ys r' \<longrightarrow> r' = r"
    using parentChain_unique[OF assms] by blast
  show "xs = [] \<longrightarrow> r = body"
    using assms by (auto split: option.splits)
  show "\<forall>x. x \<notin> set xs \<longrightarrow> compressed h xs r x = h x"
    by (simp add: compressed_def)
  show "\<forall>x \<in> set xs. \<exists>B. h x = Some B \<and>
                compressed h xs r x = Some (B\<lparr>node := (node B)\<lparr>parent := Some r\<rparr>\<rparr>)"
    using parentChain_valid[OF assms] by (fastforce simp: compressed_def)
qed

theorem componentNodeRoot_path_compression_witness:
  "parentChain chainHeap 1 [1, 2] 3
   \<and> map_option fst (componentNodeRoot chainHeap 1) = Some 3
   \<and> map_option (\<lambda>(r, h'). map_option (parent \<circ> node) (h' 1)) (componentNodeRoot chainHeap 1) = Some (Some (Some 3))
   \<and> map_option (\<lambda>(r, h'). map_option (parent \<circ> node) (h' 2)) (componentNodeRoot chainHeap 1) = Some (Some (Some 3))
   \<and> map_option (\<lambda>(r, h'). map_option (parent \<circ> node) (h' 3)) (componentNodeRoot chainHeap 1) = Some (Some None)"
proof -
  have ch: "parentChain chainHeap 1 [1, 2] 3"
    by (simp add: chainHeap_def exBody_def exNode_def)
  show ?thesis
    using componentNodeRoot_path_compression[OF ch] ch
    by (simp add: compressed_def chainHeap_def exBody_def exNode_def)
qed

subsection \<open>Deferred activation while the space is locked\<close>

text \<open>
  Claim C4. While \<open>locked\<close> holds, \<^verbatim>\<open>cpSpaceActivateBody\<close> returns the world it was
  given with \<open>body\<close> appended to \<open>rousedBodies\<close>: no other field of the space and
  no object of any heap changes.
\<close>
theorem activateBody_locked_defers:
  "locked w \<Longrightarrow> cpSpaceActivateBody w body = Some (w\<lparr>rousedBodies := rousedBodies w @ [body]\<rparr>)"
  by (simp add: cpSpaceActivateBody_def cpArrayPush_def)

theorem activateBody_locked_defers_witness:
  "locked lockedWorld \<and>
   cpSpaceActivateBody lockedWorld 1 = Some (lockedWorld\<lparr>rousedBodies := [1]\<rparr>)"
proof -
  have l: "locked lockedWorld" by (simp add: lockedWorld_def exWorld_def)
  show ?thesis using activateBody_locked_defers[OF l, of 1] l
    by (simp add: lockedWorld_def exWorld_def)
qed

subsection \<open>Static bodies are transparent to mergeBodies\<close>

text \<open>
  Claim C7. When \<open>a\<close> is static, or \<open>a\<close> is a body and \<open>b\<close> is static,
  \<^verbatim>\<open>mergeBodies\<close> returns the world and the array \<^verbatim>\<open>rogueBodies\<close> exactly as it
  received them: no parent, rank or idle time is written, nothing is woken and nothing is pushed.
\<close>
theorem mergeBodies_static_noop:
  assumes "bodyH w a = Some A"
    and "cpBodyIsStatic A \<or> (\<exists>B. bodyH w b = Some B \<and> cpBodyIsStatic B)"
  shows "mergeBodies w components rogueBodies a b = Some (w, rogueBodies)"
  using assms by (auto simp: mergeBodies_def)

theorem mergeBodies_static_noop_witness:
  "bodyH staticWorld 1 = Some exBody
   \<and> (cpBodyIsStatic exBody \<or> (\<exists>B. bodyH staticWorld 2 = Some B \<and> cpBodyIsStatic B))
   \<and> mergeBodies staticWorld [] [] 1 2 = Some (staticWorld, [])"
proof -
  have a: "bodyH staticWorld 1 = Some exBody" by (simp add: staticWorld_def exWorld_def)
  have b: "cpBodyIsStatic exBody \<or> (\<exists>B. bodyH staticWorld 2 = Some B \<and> cpBodyIsStatic B)"
    by (simp add: staticWorld_def exWorld_def cpBodyIsStatic_def)
  show ?thesis using mergeBodies_static_noop[OF a b, of "[]" "[]"] a b by simp
qed

subsection \<open>Find on an awake root, sleep on a sleeping body\<close>

lemma compressed_short:
  assumes "parentChain h body xs r" and "length xs \<le> 1"
  shows "compressed h xs r = h"
proof (cases xs)
  case Nil
  then show ?thesis by (simp add: compressed_def)
next
  case (Cons x ys)
  then have ys: "ys = []" using assms(2) by simp
  from assms(1) Cons ys obtain B where B: "x = body" "h body = Some B" "parent (node B) = Some r"
    by (auto split: option.splits)
  have "B\<lparr>node := (node B)\<lparr>parent := Some r\<rparr>\<rparr> = B" using B(3) by simp
  then show ?thesis using B Cons ys by (auto simp: compressed_def fun_eq_iff)
qed

lemma cpBodyActivate_awake:
  assumes ch: "parentChain (bodyH w) body xs r"
    and R: "bodyH w r = Some R" and aw: "\<not> cpBodyIsSleeping R"
  shows "cpBodyActivate w body = Some (w\<lparr>bodyH := compressed (bodyH w) xs r\<rparr>)"
proof -
  have "r \<notin> set xs" by (rule parentChain_root_notin[OF ch])
  then have "compressed (bodyH w) xs r r = Some R" using R by (simp add: compressed_def)
  then show ?thesis
    using componentNodeRoot_chain[OF ch] aw
    by (simp add: cpBodyActivate_def componentActivate_def)
qed

lemma cpBodySleep_sleeping:
  assumes "bodyH w b = Some B" "\<not> cpBodyIsStatic B" "\<not> cpBodyIsRogue B" "\<not> locked w"
    "cpBodyIsSleeping B"
  shows "cpBodySleep w b = Some w"
  using assms by (simp add: cpBodySleep_def cpBodySleepWithGroup_def cpBodyIsRogue_def)

subsection \<open>Evaluating the model on concrete worlds\<close>

lemmas ex_defs = pairWorld_def exWorld_def exBody_def exNode_def exShape_def exArbiter_def

lemmas model_defs = cpSpaceProcessComponents_def buildComponents_def updateIdle_def
  mergeArbiter_def mergeBodies_def cpBodyPushArbiter_def addToComponent_def
  processComponent_def componentActive_def componentNodeMerge_def componentActivate_def
  cpBodyIsStatic_def cpBodyIsRogue_def cpBodyIsSleeping_def cpArrayPush_def cpArrayDeleteObj_def
  cpvdot_def cpSpaceDeactivateBody_def cpSpaceActivateBody_def
  arbiterPrimary_def arbiterNext_def constraintPrimary_def constraintNext_def
  saveArbiter_def restoreArbiter_def cpmalloc_def cpfree_def memcpy_def readContacts_def
  writeContacts_def cpContactBufferGetArray_def cpSpacePushContacts_def
  cpHashSetInsert_def cpHashSetRemove_def CP_HASH_PAIR_def
  cpSpatialIndexInsert_def cpSpatialIndexRemove_def

lemmas loop_simps = componentNodeRoot.simps mergeConstraints.simps republish_ring.simps
  deactivate_ring.simps componentActive_ring.simps componentActivate_ring.simps
  activateShapes.simps activateArbiters.simps activateConstraints.simps
  deactivateShapes.simps deactivateArbiters.simps deactivateConstraints.simps

lemmas ex_defs2 = ex_defs idleWorld_def ringWorld_def

subsection \<open>What deactivation leaves alone\<close>

lemma deactivation_frame_refl: "deactivation_frame w w"
  by (simp add: deactivation_frame_def)

lemma deactivation_frame_trans:
  "deactivation_frame w w1 \<Longrightarrow> deactivation_frame w1 w2 \<Longrightarrow> deactivation_frame w w2"
  by (simp add: deactivation_frame_def)

lemma writeContacts_frame: "writeContacts w p cs = Some w' \<Longrightarrow> deactivation_frame w w'"
  by (auto simp: writeContacts_def deactivation_frame_def
           split: contacts_ptr.splits option.splits if_splits)

lemma memcpy_frame: "memcpy w dst src n = Some w' \<Longrightarrow> deactivation_frame w w'"
  by (auto simp: memcpy_def writeContacts_frame split: Option.bind_splits)

lemma saveArbiter_frame: "saveArbiter w arb = Some w' \<Longrightarrow> deactivation_frame w w'"
  by (auto simp: saveArbiter_def Let_def cpmalloc_def deactivation_frame_def
           dest!: memcpy_frame split: Option.bind_splits prod.splits)

lemma deactivateShapes_frame:
  assumes "deactivateShapes w sp = Some w'" shows "deactivation_frame w w'"
  using assms
proof (induct rule: deactivateShapes.raw_induct[rotated, consumes 1, case_names step])
  case (step self w sp w')
  then show ?case by (auto simp: deactivation_frame_def split: option.splits)
qed

lemma deactivateArbiters_frame:
  assumes "deactivateArbiters w body ap = Some w'" shows "deactivation_frame w w'"
  using assms
proof (induct rule: deactivateArbiters.raw_induct[rotated, consumes 1, case_names step])
  case (step self w body ap w')
  show ?case
  proof (cases ap)
    case None
    then show ?thesis using step(2) by (simp add: deactivation_frame_refl)
  next
    case (Some arb)
    with step(2) obtain prim w1 nxt where
      s: "(if prim then saveArbiter w arb else Some w) = Some w1"
         "self w1 body nxt = Some w'"
      by (auto split: Option.bind_splits)
    have "deactivation_frame w w1"
      using s(1) by (cases prim) (auto simp: saveArbiter_frame deactivation_frame_refl)
    then show ?thesis using step(1)[OF s(2)] deactivation_frame_trans by blast
  qed
qed

lemma deactivateConstraints_frame:
  assumes "deactivateConstraints w body cp = Some w'" shows "deactivation_frame w w'"
  using assms
proof (induct rule: deactivateConstraints.raw_induct[rotated, consumes 1, case_names step])
  case (step self w body cp w')
  show ?case
  proof (cases cp)
    case None
    then show ?thesis using step(2) by (simp add: deactivation_frame_refl)
  next
    case (Some c)
    with step(2) obtain prim nxt where
      s: "self (if prim then w\<lparr>constraints := cpArrayDeleteObj (constraints w) c\<rparr> else w) body nxt
          = Some w'"
      by (auto simp: Let_def split: Option.bind_splits)
    have "deactivation_frame w (if prim then w\<lparr>constraints := cpArrayDeleteObj (constraints w) c\<rparr> else w)"
      by (simp add: deactivation_frame_def)
    then show ?thesis using step(1)[OF s] deactivation_frame_trans by blast
  qed
qed

lemma cpSpaceDeactivateBody_frame:
  assumes "cpSpaceDeactivateBody w body = Some w'" shows "deactivation_frame w w'"
proof -
  from assms obtain B1 w2 B2 w3 B3 where
    s: "bodyH w body = Some B1" "deactivateShapes w (shapeList B1) = Some w2"
    "bodyH w2 body = Some B2" "deactivateArbiters w2 body (arbiterList B2) = Some w3"
    "bodyH w3 body = Some B3" "deactivateConstraints w3 body (constraintList B3) = Some w'"
    by (auto simp: cpSpaceDeactivateBody_def split: Option.bind_splits)
  show ?thesis
    by (rule deactivation_frame_trans[OF deactivateShapes_frame[OF s(2)]
          deactivation_frame_trans[OF deactivateArbiters_frame[OF s(4)]
            deactivateConstraints_frame[OF s(6)]]])
qed

lemma deactivate_ring_frame:
  assumes "deactivate_ring w croot body = Some w'" shows "deactivation_frame w w'"
  using assms
proof (induct rule: deactivate_ring.raw_induct[rotated, consumes 1, case_names step])
  case (step self w croot body w')
  from step(2) obtain B w1 n where s: "bodyH w body = Some B"
    "cpSpaceDeactivateBody w body = Some w1" "next (node B) = Some n"
    "(n = croot \<and> w' = w1) \<or> (n \<noteq> croot \<and> self w1 croot n = Some w')"
    by (auto simp: Let_def split: option.splits Option.bind_splits if_splits)
  have f1: "deactivation_frame w w1" by (rule cpSpaceDeactivateBody_frame[OF s(2)])
  from s(4) show ?case
  proof
    assume "n = croot \<and> w' = w1" then show ?thesis using f1 by simp
  next
    assume "n \<noteq> croot \<and> self w1 croot n = Some w'"
    then have "self w1 croot n = Some w'" by simp
    from step(1)[OF this] f1 show ?thesis using deactivation_frame_trans by blast
  qed
qed

subsection \<open>The idle time of a sleeping body\<close>

lemma componentActive_ring_False:
  assumes "componentActive_ring h croot body threshold = Some v" and "\<not> v"
  shows "\<exists>ms. ringMembers h croot body = Some ms
              \<and> (\<forall>m \<in> set ms. \<exists>M. h m = Some M \<and> threshold \<le> idleTime (node M))"
  using assms
proof (induct rule: componentActive_ring.raw_induct[rotated, consumes 1, case_names step])
  case (step self h croot body threshold v)
  from step(2,3) obtain B n where B: "h body = Some B" "\<not> idleTime (node B) < threshold"
      "next (node B) = Some n"
    and r: "n = croot \<or> (n \<noteq> croot \<and> self h croot n threshold = Some v)"
    by (auto split: option.splits if_splits)
  show ?case
  proof (cases "n = croot")
    case True
    then show ?thesis using B by (subst ringMembers.simps) auto
  next
    case False
    then have "self h croot n threshold = Some v" using r by simp
    from step(1)[OF this step(3)] obtain ms where ms: "ringMembers h croot n = Some ms"
      "\<forall>m \<in> set ms. \<exists>M. h m = Some M \<and> threshold \<le> idleTime (node M)" by blast
    then show ?thesis using B False by (subst ringMembers.simps) auto
  qed
qed

lemma cpBodySleepWithGroup_idle:
  assumes "bodyH w body = Some B" "\<not> cpBodyIsSleeping B"
    and "cpBodySleepWithGroup w body grp = Some w'"
  shows "\<exists>B'. bodyH w' body = Some B' \<and> idleTime (node B') = 0"
  using assms
  by (auto simp: cpBodySleepWithGroup_def Let_def
           split: Option.bind_splits option.splits if_splits)

lemma processComponent_asleep:
  assumes act: "componentActive (bodyH v) croot (sleepTimeThreshold v) = Some False"
    and run: "processComponent v nb croot = Some (v', nb')"
  shows "bodyH v' = bodyH v \<and> sleepingComponents v' = sleepingComponents v @ [croot]
         \<and> (\<exists>ms. ringMembers (bodyH v) croot croot = Some ms
                \<and> (\<forall>m \<in> set ms. \<exists>M. bodyH v' m = Some M
                                     \<and> sleepTimeThreshold v \<le> idleTime (node M)))"
proof -
  from run act obtain w1 where w1: "deactivate_ring v croot croot = Some w1"
     and eq: "v' = w1\<lparr>sleepingComponents := cpArrayPush (sleepingComponents w1) croot\<rparr>"
    by (auto simp: processComponent_def split: Option.bind_splits)
  have f: "deactivation_frame v w1" by (rule deactivate_ring_frame[OF w1])
  have h: "bodyH v' = bodyH v" using f eq by (simp add: deactivation_frame_def)
  have s: "sleepingComponents v' = sleepingComponents v @ [croot]"
    using f eq by (simp add: deactivation_frame_def cpArrayPush_def)
  from act have "componentActive_ring (bodyH v) croot croot (sleepTimeThreshold v) = Some False"
    by (simp add: componentActive_def)
  from componentActive_ring_False[OF this] h s show ?thesis by simp
qed

text \<open>
  A body alone in the space, at rest, with \<open>sleepTimeThreshold = 1/2\<close>: one step of
  length 1 puts it to sleep (it leaves \<open>bodies\<close> and becomes a sleeping component),
  and its idle time is then 1, not 0.
\<close>

theorem processComponents_sleep_keeps_idleTime_counterexample:
  "map_option (\<lambda>w'. (bodies w', sleepingComponents w',
                      map_option cpBodyIsSleeping (bodyH w' 1),
                      map_option (\<lambda>B. idleTime (node B)) (bodyH w' 1)))
     (cpSpaceProcessComponents idleWorld 1)
   = Some ([], [1], Some True, Some 1)"
  by (simp add: ex_defs2 model_defs loop_simps Let_def)

lemma ring_run:
  "processComponent ringWorld [] 1 = Some (ringWorld\<lparr>sleepingComponents := [1]\<rparr>, [])"
  by (simp add: ex_defs2 model_defs loop_simps Let_def)

lemma sleep_run:
  "cpBodySleepWithGroup idleWorld 1 None
   = Some (idleWorld\<lparr>bodyH := [1 \<mapsto> exBody\<lparr>node := exNode\<lparr>next := Some 1\<rparr>\<rparr>],
                     sleepingComponents := [1], bodies := []\<rparr>)"
  by (simp add: ex_defs2 model_defs loop_simps updateShapes.simps cpBodySleepWithGroup_def Let_def)

text \<open>
  Claim C2, as amended. A body that \<^verbatim>\<open>cpBodySleepWithGroup\<close> puts to sleep ends with idle
  time 0. A component that the verdict loop of \<^verbatim>\<open>cpSpaceProcessComponents\<close> judges not
  active is deactivated and parked in \<open>sleepingComponents\<close> without any write to a
  body: each member of its ring keeps its node, and its idle time is at least
  \<open>sleepTimeThreshold\<close>.
\<close>

theorem sleeping_idleTime:
  "(bodyH w body = Some B \<and> \<not> cpBodyIsSleeping B \<and> cpBodySleepWithGroup w body grp = Some w'
      \<longrightarrow> (\<exists>B'. bodyH w' body = Some B' \<and> idleTime (node B') = 0))
   \<and> (componentActive (bodyH v) croot (sleepTimeThreshold v) = Some False
       \<and> processComponent v nb croot = Some (v', nb')
      \<longrightarrow> bodyH v' = bodyH v \<and> sleepingComponents v' = sleepingComponents v @ [croot]
          \<and> (\<exists>ms. ringMembers (bodyH v) croot croot = Some ms
                 \<and> (\<forall>m \<in> set ms. \<exists>M. bodyH v' m = Some M
                                      \<and> sleepTimeThreshold v \<le> idleTime (node M))))"
  using cpBodySleepWithGroup_idle[of w body B grp w'] processComponent_asleep[of v croot nb v' nb']
  by blast

theorem sleeping_idleTime_witness:
  "(bodyH idleWorld 1 = Some exBody \<and> \<not> cpBodyIsSleeping exBody
    \<and> cpBodySleepWithGroup idleWorld 1 None
        = Some (idleWorld\<lparr>bodyH := [1 \<mapsto> exBody\<lparr>node := exNode\<lparr>next := Some 1\<rparr>\<rparr>],
                          sleepingComponents := [1], bodies := []\<rparr>)
    \<and> map_option (\<lambda>B. idleTime (node B)) ([1 \<mapsto> exBody\<lparr>node := exNode\<lparr>next := Some 1\<rparr>\<rparr>] (1::nat))
        = Some 0)
   \<and> (componentActive (bodyH ringWorld) 1 (sleepTimeThreshold ringWorld) = Some False
    \<and> processComponent ringWorld [] 1 = Some (ringWorld\<lparr>sleepingComponents := [1]\<rparr>, [])
    \<and> ringMembers (bodyH ringWorld) 1 1 = Some [1]
    \<and> map_option (\<lambda>B. idleTime (node B)) (bodyH (ringWorld\<lparr>sleepingComponents := [1]\<rparr>) 1) = Some 1
    \<and> sleepTimeThreshold ringWorld \<le> 1)"
proof -
  have a: "bodyH idleWorld 1 = Some exBody" "\<not> cpBodyIsSleeping exBody"
    by (simp_all add: ex_defs2 cpBodyIsSleeping_def)
  have b: "componentActive (bodyH ringWorld) 1 (sleepTimeThreshold ringWorld) = Some False"
    by (simp add: ex_defs2 componentActive_def componentActive_ring.simps)
  have c: "ringMembers (bodyH ringWorld) 1 1 = Some [1]"
    by (simp add: ex_defs2 ringMembers.simps)
  have d: "map_option (\<lambda>B. idleTime (node B)) (bodyH (ringWorld\<lparr>sleepingComponents := [1]\<rparr>) 1) = Some 1"
     "sleepTimeThreshold ringWorld \<le> 1"
    by (simp_all add: ex_defs2)
  have e: "\<exists>B'. (idleWorld\<lparr>bodyH := [1 \<mapsto> exBody\<lparr>node := exNode\<lparr>next := Some 1\<rparr>\<rparr>],
                          sleepingComponents := [1], bodies := []\<rparr>) \<in> {w. bodyH w 1 = Some B' \<and> idleTime (node B') = 0}"
    using sleeping_idleTime[of idleWorld 1 exBody None
        "idleWorld\<lparr>bodyH := [1 \<mapsto> exBody\<lparr>node := exNode\<lparr>next := Some 1\<rparr>\<rparr>],
                          sleepingComponents := [1], bodies := []\<rparr>"] a sleep_run
    by simp
  have f: "bodyH (ringWorld\<lparr>sleepingComponents := [1]\<rparr>) = bodyH ringWorld"
    using sleeping_idleTime[of _ _ _ _ _ ringWorld 1 "[]" "ringWorld\<lparr>sleepingComponents := [1]\<rparr>" "[]"]
      b ring_run by blast
  show ?thesis using a b c d e f sleep_run ring_run by (simp add: ex_defs2)
qed

subsection \<open>The bodies republished by the verdict loop\<close>

lemma republish_ring_inv_aux:
  assumes "republish_ring w croot body nb = Some res"
    and "distinct nb" and "\<forall>b \<in> set nb. cleared (bodyH w) b"
  shows "distinct (snd res) \<and> (\<forall>b \<in> set (snd res). cleared (bodyH (fst res)) b)
         \<and> (\<forall>b. idleOf (bodyH (fst res)) b = idleOf (bodyH w) b)"
  using assms
proof (induct rule: republish_ring.raw_induct[rotated, consumes 1, case_names step])
  case (step self w croot body nb res)
  from step(2) obtain B n where B: "bodyH w body = Some B" "next (node B) = Some n"
    by (auto simp: Let_def split: option.splits)
  define nb1 where "nb1 = (if \<not> cpBodyIsRogue B then cpArrayPush nb body else nb)"
  define w1 where "w1 = w\<lparr>bodyH := (bodyH w)(body \<mapsto>
                         B\<lparr>node := \<lparr>parent = None, next = None, rank = 0,
                                    idleTime = idleTime (node B)\<rparr>\<rparr>)\<rparr>"
  have notin: "body \<notin> set nb" using step(4) B by (auto simp: cleared_def)
  have d1: "distinct nb1" using step(3) notin by (simp add: nb1_def cpArrayPush_def)
  have c1: "\<forall>b \<in> set nb1. cleared (bodyH w1) b"
    using step(4) by (auto simp: nb1_def w1_def cpArrayPush_def cleared_def)
  have i1: "\<forall>b. idleOf (bodyH w1) b = idleOf (bodyH w) b"
    using B by (auto simp: w1_def idleOf_def)
  from step(2) B have r: "(n = croot \<and> res = (w1, nb1))
       \<or> (n \<noteq> croot \<and> self w1 croot n nb1 = Some res)"
    by (auto simp: Let_def nb1_def w1_def split: if_splits)
  then show ?case
  proof
    assume "n = croot \<and> res = (w1, nb1)"
    then show ?thesis using d1 c1 i1 by simp
  next
    assume a: "n \<noteq> croot \<and> self w1 croot n nb1 = Some res"
    then have "self w1 croot n nb1 = Some res" by simp
    from step(1)[OF this d1 c1] i1 show ?thesis by simp
  qed
qed

lemma processComponent_inv:
  assumes "processComponent w nb croot = Some (w', nb')"
    and "distinct nb" and "\<forall>b \<in> set nb. cleared (bodyH w) b"
  shows "distinct nb' \<and> (\<forall>b \<in> set nb'. cleared (bodyH w') b)
         \<and> (\<forall>b. idleOf (bodyH w') b = idleOf (bodyH w) b)"
proof -
  from assms(1) obtain act where act: "componentActive (bodyH w) croot (sleepTimeThreshold w) = Some act"
    by (auto simp: processComponent_def split: Option.bind_splits)
  show ?thesis
  proof (cases act)
    case True
    then have "republish_ring w croot croot nb = Some (w', nb')"
      using assms(1) act by (simp add: processComponent_def)
    from republish_ring_inv_aux[OF this assms(2,3)] show ?thesis by simp
  next
    case False
    then obtain w1 where w1: "deactivate_ring w croot croot = Some w1"
       and eq: "w' = w1\<lparr>sleepingComponents := cpArrayPush (sleepingComponents w1) croot\<rparr>" "nb' = nb"
      using assms(1) act by (auto simp: processComponent_def split: Option.bind_splits)
    have "bodyH w' = bodyH w"
      using deactivate_ring_frame[OF w1] eq by (simp add: deactivation_frame_def)
    then show ?thesis using assms(2,3) eq by simp
  qed
qed

lemma processComponentsAll_inv:
  assumes "processComponentsAll w nb comps = Some (w', nb')"
    and "distinct nb" and "\<forall>b \<in> set nb. cleared (bodyH w) b"
  shows "distinct nb' \<and> (\<forall>b \<in> set nb'. cleared (bodyH w') b)
         \<and> (\<forall>b. idleOf (bodyH w') b = idleOf (bodyH w) b)"
  using assms
proof (induction comps arbitrary: w nb)
  case Nil
  then show ?case by simp
next
  case (Cons c comps)
  from Cons.prems(1) obtain w1 nb1 where s1: "processComponent w nb c = Some (w1, nb1)"
    and s2: "processComponentsAll w1 nb1 comps = Some (w', nb')"
    by (auto split: Option.bind_splits)
  from processComponent_inv[OF s1 Cons.prems(2,3)]
  have i1: "distinct nb1" "\<forall>b \<in> set nb1. cleared (bodyH w1) b"
    "\<forall>b. idleOf (bodyH w1) b = idleOf (bodyH w) b" by auto
  from Cons.IH[OF s2 i1(1,2)] i1(3) show ?case by simp
qed

text \<open>
  Claim C5. When \<^verbatim>\<open>cpSpaceProcessComponents\<close> returns, the new \<open>bodies\<close> lists no body
  twice, and every body it lists has the node \<open>{absent, absent, 0, t}\<close> where \<open>t\<close> is
  the idle time the body had when the verdict loop started (no step of that loop writes
  an idle time, so it is also the idle time at the verdict on its component).
\<close>

theorem processComponents_bodies_cleared:
  assumes "cpSpaceProcessComponents w dt = Some w'"
  shows "distinct (bodies w')
         \<and> (\<exists>w5 components.
               buildComponents w dt = Some (w5, components)
               \<and> (\<forall>b \<in> set (bodies w'). \<exists>B5 B'.
                     bodyH w5 b = Some B5 \<and> bodyH w' b = Some B'
                     \<and> node B' = \<lparr>parent = None, next = None, rank = 0,
                                   idleTime = idleTime (node B5)\<rparr>))"
proof -
  from assms obtain w5 comps w6 nb where b: "buildComponents w dt = Some (w5, comps)"
    and v: "processComponentsAll w5 [] comps = Some (w6, nb)" and w': "w' = w6\<lparr>bodies := nb\<rparr>"
    by (auto simp: cpSpaceProcessComponents_def split: Option.bind_splits)
  from processComponentsAll_inv[OF v] have inv: "distinct nb"
    "\<forall>b \<in> set nb. cleared (bodyH w6) b" "\<forall>b. idleOf (bodyH w6) b = idleOf (bodyH w5) b"
    by auto
  have "\<exists>B5 B'. bodyH w5 x = Some B5 \<and> bodyH w' x = Some B'
                     \<and> node B' = \<lparr>parent = None, next = None, rank = 0,
                                   idleTime = idleTime (node B5)\<rparr>" if "x \<in> set nb" for x
  proof -
    from inv(2) that obtain B' where B': "bodyH w6 x = Some B'" "parent (node B') = None"
      "next (node B') = None" "rank (node B') = 0"
      by (auto simp: cleared_def split: option.splits)
    from inv(3) B'(1) obtain B5 where B5: "bodyH w5 x = Some B5"
      "idleTime (node B5) = idleTime (node B')"
      by (cases "bodyH w5 x") (auto simp: idleOf_def dest!: spec[of _ x])
    have "node B' = \<lparr>parent = None, next = None, rank = 0, idleTime = idleTime (node B5)\<rparr>"
      using B' B5 by (cases "node B'") simp
    then show ?thesis using B' B5 w' by simp
  qed
  then show ?thesis using inv(1) b w' by simp
qed

lemma pair_run:
  "map_option (\<lambda>w'. (bodies w', map_option node (bodyH w' 1), map_option node (bodyH w' 2)))
     (cpSpaceProcessComponents pairWorld (1 / 60))
   = Some ([1, 2], Some \<lparr>parent = None, next = None, rank = 0, idleTime = 1 / 60\<rparr>,
                   Some \<lparr>parent = None, next = None, rank = 0, idleTime = 1 / 60\<rparr>)"
  by (simp add: ex_defs model_defs loop_simps Let_def)

theorem processComponents_bodies_cleared_witness:
  "cpSpaceProcessComponents pairWorld (1 / 60) \<noteq> None
   \<and> distinct (bodies (the (cpSpaceProcessComponents pairWorld (1 / 60))))
   \<and> map_option (\<lambda>w'. (bodies w', map_option node (bodyH w' 1), map_option node (bodyH w' 2)))
       (cpSpaceProcessComponents pairWorld (1 / 60))
     = Some ([1, 2], Some \<lparr>parent = None, next = None, rank = 0, idleTime = 1 / 60\<rparr>,
                     Some \<lparr>parent = None, next = None, rank = 0, idleTime = 1 / 60\<rparr>)"
proof -
  from pair_run obtain w' where w': "cpSpaceProcessComponents pairWorld (1 / 60) = Some w'"
    by (cases "cpSpaceProcessComponents pairWorld (1 / 60)") auto
  from processComponents_bodies_cleared[OF w'] have "distinct (bodies w')" by simp
  then show ?thesis using w' pair_run by simp
qed

subsection \<open>The arbiter lists built by the driver\<close>

text \<open>
  Claim C1, evaluated. Two bodies 1 and 2 touch through the arbiters 21 and 22; each arbiter
  has its shape \<open>a\<close> on body 1 and its shape \<open>b\<close> on body 2. After
  \<^verbatim>\<open>cpSpaceProcessComponents\<close> both arbiters have been pushed for body 2, but every push
  wrote \<open>nextA\<close>: \<open>nextB\<close> of arbiter 22 is still absent, and the traversal
  \<^verbatim>\<open>arb->a->body == body ? arb->nextA : arb->nextB\<close> from body 2's list visits arbiter 22
  only.
\<close>

theorem pushArbiter_overwrites_nextA:
  "map_option (\<lambda>w'. (map_option arbiterList (bodyH w' 2),
                      map_option (\<lambda>A. (arb_b A, nextA A, nextB A)) (arbH w' 22),
                      map_option (\<lambda>A. (arb_b A, nextA A, nextB A)) (arbH w' 21),
                      map_option shape_body (shapeH w' 12), map_option shape_body (shapeH w' 14),
                      arbiterChain w' 2 (Some 22)))
     (cpSpaceProcessComponents pairWorld (1 / 60))
   = Some (Some (Some 22), Some (14, Some 21, None), Some (12, None, None),
           Some 2, Some 2, Some [22])"
  by (simp add: ex_defs model_defs loop_simps arbiterChain.simps Let_def)

subsection \<open>Contacts across a sleep/wake cycle\<close>

lemma same_links_refl: "same_links w w"
  by (simp add: same_links_def)

lemma same_links_trans: "same_links w w1 \<Longrightarrow> same_links w1 w2 \<Longrightarrow> same_links w w2"
  by (simp add: same_links_def)

lemma same_links_arb:
  assumes "same_links w w'" and "arbH w x = Some A"
  shows "\<exists>p. arbH w' x = Some (A\<lparr>contacts := p\<rparr>)"
proof -
  from assms have e: "map_option (\<lambda>A. A\<lparr>contacts := NullContacts\<rparr>) (arbH w' x)
             = Some (A\<lparr>contacts := NullContacts\<rparr>)"
    by (simp add: same_links_def)
  then obtain A' where A': "arbH w' x = Some A'" "A'\<lparr>contacts := NullContacts\<rparr> = A\<lparr>contacts := NullContacts\<rparr>"
    by (cases "arbH w' x") auto
  have "A' = A\<lparr>contacts := contacts A'\<rparr>"
    using A'(2) by (cases A', cases A) simp
  then show ?thesis using A'(1) by metis
qed

lemma same_links_arb_None:
  assumes "same_links w w'" and "arbH w x = None"
  shows "arbH w' x = None"
  using assms by (auto simp: same_links_def dest!: spec[of _ x])

lemma same_links_next: "same_links w w' \<Longrightarrow> arbiterNext w' body x = arbiterNext w body x"
proof (cases "arbH w x")
  case None
  assume "same_links w w'"
  then show ?thesis using None same_links_arb_None[of w w' x] by (simp add: arbiterNext_def)
next
  case (Some A)
  assume l: "same_links w w'"
  from same_links_arb[OF l Some] obtain p where "arbH w' x = Some (A\<lparr>contacts := p\<rparr>)" by blast
  moreover have "shapeH w' = shapeH w" using l by (simp add: same_links_def)
  ultimately show ?thesis using Some
    by (cases "shapeH w (arb_a A)") (simp_all add: arbiterNext_def)
qed

lemma same_links_primary: "same_links w w' \<Longrightarrow> arbiterPrimary w' body x = arbiterPrimary w body x"
proof (cases "arbH w x")
  case None
  assume "same_links w w'"
  then show ?thesis using None same_links_arb_None[of w w' x] by (simp add: arbiterPrimary_def)
next
  case (Some A)
  assume l: "same_links w w'"
  from same_links_arb[OF l Some] obtain p where "arbH w' x = Some (A\<lparr>contacts := p\<rparr>)" by blast
  moreover have "shapeH w' = shapeH w" "bodyH w' = bodyH w" using l by (simp_all add: same_links_def)
  ultimately show ?thesis using Some
    by (cases "shapeH w (arb_a A)") (simp_all add: arbiterPrimary_def)
qed

lemma same_links_key: "same_links w w' \<Longrightarrow> pairKey w' x = pairKey w x"
proof (cases "arbH w x")
  case None
  assume "same_links w w'"
  then show ?thesis using None same_links_arb_None[of w w' x] by (simp add: pairKey_def)
next
  case (Some A)
  assume l: "same_links w w'"
  from same_links_arb[OF l Some] obtain p where "arbH w' x = Some (A\<lparr>contacts := p\<rparr>)" by blast
  then show ?thesis using Some by (simp add: pairKey_def)
qed

subsection \<open>Chains\<close>

lemma arbiterChain_links:
  assumes "arbiterChain w' body ap = Some xs" and "same_links w w'"
  shows "arbiterChain w body ap = Some xs"
  using assms
proof (induct rule: arbiterChain.raw_induct[rotated, consumes 1, case_names step])
  case (step self w' body ap xs)
  show ?case
  proof (cases ap)
    case None
    then show ?thesis using step(2) by (subst arbiterChain.simps) simp
  next
    case (Some arb)
    with step(2) obtain nxt rest where s: "arbiterNext w' body arb = Some nxt"
      "self w' body nxt = Some rest" "xs = arb # rest"
      by (auto split: Option.bind_splits)
    have "arbiterChain w body nxt = Some rest" by (rule step(1)[OF s(2) step(3)])
    moreover have "arbiterNext w body arb = Some nxt"
      using same_links_next[OF step(3)] s(1) by simp
    ultimately show ?thesis using Some s(3) by (subst arbiterChain.simps) simp
  qed
qed

lemma arbiterChain_suffix:
  "arbiterChain w body ap = Some (pre @ y # post) \<Longrightarrow> arbiterChain w body (Some y) = Some (y # post)"
proof (induction pre arbitrary: ap)
  case Nil
  then show ?case
    by (cases ap) (auto simp: arbiterChain.simps[of w body "None"]
                              arbiterChain.simps[of w body "Some _"] split: Option.bind_splits)
next
  case (Cons x pre)
  from Cons.prems obtain nxt where "arbiterChain w body nxt = Some (pre @ y # post)"
    by (cases ap) (auto simp: arbiterChain.simps[of w body "None"]
                              arbiterChain.simps[of w body "Some _"] split: Option.bind_splits)
  then show ?case by (rule Cons.IH)
qed

lemma arbiterChain_distinct:
  "arbiterChain w body ap = Some xs \<Longrightarrow> distinct xs"
proof (induction xs arbitrary: ap)
  case Nil
  then show ?case by simp
next
  case (Cons x xs)
  from Cons.prems obtain nxt where n: "ap = Some x" "arbiterNext w body x = Some nxt"
     "arbiterChain w body nxt = Some xs"
    by (cases ap) (auto simp: arbiterChain.simps[of w body "None"]
                              arbiterChain.simps[of w body "Some _"] split: Option.bind_splits)
  have "x \<notin> set xs"
  proof
    assume "x \<in> set xs"
    then obtain pre post where "xs = pre @ x # post" by (auto simp: in_set_conv_decomp)
    with n(3) have "arbiterChain w body (Some x) = Some (x # post)"
      using arbiterChain_suffix by blast
    with Cons.prems n(1) have "x # xs = x # post" by simp
    with \<open>xs = pre @ x # post\<close> show False by simp
  qed
  then show ?case using Cons.IH[OF n(3)] by simp
qed


lemma readContacts_cong:
  "blocks w' = blocks w \<Longrightarrow> contactBuffer w' = contactBuffer w \<Longrightarrow>
   readContacts w' p n = readContacts w p n"
  by (cases p) (simp_all add: readContacts_def)



lemma restoreArbiter_post:
  assumes A: "arbH w x = Some A" and run: "restoreArbiter w x = Some w'"
  shows "\<exists>cs. readContacts w (contacts A) (numContacts A) = Some cs
          \<and> contacts A \<noteq> BufferAt (case contacts A of BufferAt off \<Rightarrow> off | _ \<Rightarrow> 0)
          \<and> (\<forall>k. contacts A = HeapBlock k \<longrightarrow> k < length (blocks w) \<and> blocks w ! k \<noteq> None)
          \<and> w' = w\<lparr>arbH := (arbH w)(x \<mapsto> A\<lparr>contacts := BufferAt (contactBufferNum w)\<rparr>),
                   contactBuffer := (\<lambda>i. if contactBufferNum w \<le> i \<and> i < contactBufferNum w + length cs
                                         then cs ! (i - contactBufferNum w) else contactBuffer w i),
                   contactBufferNum := contactBufferNum w + numContacts A,
                   contactSet := cpHashSetInsert (contactSet w) (CP_HASH_PAIR (arb_a A) (arb_b A)) x,
                   blocks := (case contacts A of HeapBlock k \<Rightarrow> (blocks w)[k := None] | _ \<Rightarrow> blocks w)\<rparr>"
proof -
  define w1 where "w1 = w\<lparr>arbH := (arbH w)(x \<mapsto> A\<lparr>contacts := BufferAt (contactBufferNum w)\<rparr>)\<rparr>"
  from run A obtain w2 where m: "memcpy w1 (BufferAt (contactBufferNum w)) (contacts A) (numContacts A) = Some w2"
    by (auto simp: restoreArbiter_def Let_def cpContactBufferGetArray_def w1_def
             split: Option.bind_splits)
  from m obtain cs where r: "readContacts w1 (contacts A) (numContacts A) = Some cs"
     and wr: "writeContacts w1 (BufferAt (contactBufferNum w)) cs = Some w2"
    by (auto simp: memcpy_def split: Option.bind_splits)
  have r': "readContacts w (contacts A) (numContacts A) = Some cs"
    using r readContacts_cong[of w1 w] by (simp add: w1_def)
  have w2: "w2 = w1\<lparr>contactBuffer := (\<lambda>i. if contactBufferNum w \<le> i \<and> i < contactBufferNum w + length cs
                                         then cs ! (i - contactBufferNum w) else contactBuffer w i)\<rparr>"
    using wr by (auto simp: writeContacts_def w1_def cong: if_cong)
  define w4 where "w4 = w2\<lparr>contactBufferNum := contactBufferNum w + numContacts A,
        contactSet := cpHashSetInsert (contactSet w) (CP_HASH_PAIR (arb_a A) (arb_b A)) x\<rparr>"
  have f: "cpfree w4 (contacts A) = Some w'"
    using run A m w2
    by (auto simp: restoreArbiter_def Let_def cpContactBufferGetArray_def w1_def w4_def
                   cpSpacePushContacts_def split: Option.bind_splits)
  show ?thesis
  proof (cases "contacts A")
    case NullContacts
    then show ?thesis using f r' by (simp add: cpfree_def w4_def w2 w1_def)
  next
    case (HeapBlock k)
    then show ?thesis using f r'
      by (auto simp: cpfree_def w4_def w2 w1_def split: if_splits)
  next
    case (BufferAt off)
    then show ?thesis using f by (simp add: cpfree_def)
  qed
qed



lemma restore_rel_refl: "restore_rel w w X Ks"
  by (simp add: restore_rel_def same_links_refl)

lemma restore_rel_trans:
  assumes "restore_rel w w1 X Ks" and "restore_rel w1 w2 Y Ls"
  shows "restore_rel w w2 (X \<union> Y) (Ks \<union> Ls)"
proof -
  have "\<forall>j. blocks w2 ! j = blocks w ! j \<or> blocks w2 ! j = None"
    using assms unfolding restore_rel_def by metis
  moreover have "\<forall>i < contactBufferNum w. contactBuffer w2 i = contactBuffer w i"
    using assms unfolding restore_rel_def by auto
  moreover have "same_links w w2"
    using assms same_links_trans unfolding restore_rel_def by blast
  ultimately show ?thesis using assms unfolding restore_rel_def by auto
qed


lemma restoreArbiter_rel:
  assumes "restoreArbiter w x = Some w'" and "pairKey w x = Some key"
  shows "restore_rel w w' {x} {key}"
proof -
  from assms obtain A where A: "arbH w x = Some A"
    by (auto simp: restoreArbiter_def split: Option.bind_splits)
  from restoreArbiter_post[OF A assms(1)] obtain cs where
    w': "w' = w\<lparr>arbH := (arbH w)(x \<mapsto> A\<lparr>contacts := BufferAt (contactBufferNum w)\<rparr>),
                   contactBuffer := (\<lambda>i. if contactBufferNum w \<le> i \<and> i < contactBufferNum w + length cs
                                         then cs ! (i - contactBufferNum w) else contactBuffer w i),
                   contactBufferNum := contactBufferNum w + numContacts A,
                   contactSet := cpHashSetInsert (contactSet w) (CP_HASH_PAIR (arb_a A) (arb_b A)) x,
                   blocks := (case contacts A of HeapBlock k \<Rightarrow> (blocks w)[k := None] | _ \<Rightarrow> blocks w)\<rparr>"
    and al: "\<forall>k. contacts A = HeapBlock k \<longrightarrow> k < length (blocks w) \<and> blocks w ! k \<noteq> None"
    by blast
  have k: "key = CP_HASH_PAIR (arb_a A) (arb_b A)" using assms(2) A by (simp add: pairKey_def)
  have b: "length (blocks w') = length (blocks w)
           \<and> (\<forall>j. blocks w' ! j = blocks w ! j \<or> blocks w' ! j = None)"
    using w' al by (cases "contacts A") (auto simp: nth_list_update)
  show ?thesis using A w' k b
    by (auto simp: restore_rel_def same_links_def cpHashSetInsert_def)
qed


lemma restoreAll_rel:
  "restoreAll w body xs = Some w' \<Longrightarrow>
   restore_rel w w' (set xs)
     {key. \<exists>x \<in> set xs. arbiterPrimary w body x = Some True \<and> pairKey w x = Some key}"
proof (induction xs arbitrary: w)
  case Nil
  then show ?case by (simp add: restore_rel_refl)
next
  case (Cons x xs)
  from Cons.prems obtain prim w1 where s: "arbiterPrimary w body x = Some prim"
    "(if prim then restoreArbiter w x else Some w) = Some w1" "restoreAll w1 body xs = Some w'"
    by (auto split: Option.bind_splits)
  define K1 where "K1 = {key. prim \<and> pairKey w x = Some key}"
  have r1: "restore_rel w w1 {x} K1"
  proof (cases prim)
    case True
    then have run: "restoreArbiter w x = Some w1" using s(2) by simp
    then obtain A where "arbH w x = Some A"
      by (auto simp: restoreArbiter_def split: Option.bind_splits)
    then obtain key where key: "pairKey w x = Some key" by (simp add: pairKey_def)
    have "K1 = {key}" using True key by (auto simp: K1_def)
    then show ?thesis using restoreArbiter_rel[OF run key] by simp
  next
    case False
    then show ?thesis using s(2) by (simp add: restore_rel_refl)
  qed
  have l: "same_links w w1" using r1 by (simp add: restore_rel_def)
  have "restore_rel w1 w' (set xs)
     {key. \<exists>y \<in> set xs. arbiterPrimary w body y = Some True \<and> pairKey w y = Some key}"
    using Cons.IH[OF s(3)] same_links_primary[OF l] same_links_key[OF l] by simp
  from restore_rel_trans[OF r1 this] have
    "restore_rel w w' ({x} \<union> set xs)
       (K1 \<union> {key. \<exists>y \<in> set xs. arbiterPrimary w body y = Some True \<and> pairKey w y = Some key})" .
  moreover have "K1 \<union> {key. \<exists>y \<in> set xs. arbiterPrimary w body y = Some True \<and> pairKey w y = Some key}
      = {key. \<exists>y \<in> set (x # xs). arbiterPrimary w body y = Some True \<and> pairKey w y = Some key}"
    using s(1) by (auto simp: K1_def)
  ultimately show ?case by simp
qed








lemma same_links_sym: "same_links w w' \<Longrightarrow> same_links w' w"
  by (simp add: same_links_def)

lemma activateShapes_contact_frame:
  assumes "activateShapes w sp = Some w'" shows "contact_frame w w'"
  using assms
proof (induct rule: activateShapes.raw_induct[rotated, consumes 1, case_names step])
  case (step self w sp w')
  then show ?case by (auto simp: contact_frame_def split: option.splits)
qed








lemmas contact_defs = contactWorld_def exWorld_def exBody_def exNode_def exShape_def exArbiter_def

subsection \<open>Rogue bodies keep their component awake\<close>

lemma pchain_unique: "pchain P b xs r \<Longrightarrow> pchain P b ys r' \<Longrightarrow> xs = ys \<and> r = r'"
proof (induction xs arbitrary: b ys)
  case Nil
  then show ?case by (cases ys) (auto split: option.splits)
next
  case (Cons x xs)
  then show ?case by (cases ys) (auto split: option.splits)
qed

lemma rootOf_unique: "rootOf P b r \<Longrightarrow> rootOf P b r' \<Longrightarrow> r = r'"
  unfolding rootOf_def using pchain_unique by blast

lemma pchain_root: "pchain P b xs r \<Longrightarrow> P r = None"
  by (induction xs arbitrary: b) (auto split: option.splits)

lemma pchain_parent: "pchain P b xs r \<Longrightarrow> x \<in> set xs \<Longrightarrow> P x \<noteq> None"
  by (induction xs arbitrary: b) (auto split: option.splits)

lemma pchain_root_notin: "pchain P b xs r \<Longrightarrow> r \<notin> set xs"
  using pchain_root pchain_parent by fastforce

lemma pchain_suffix: "pchain P b xs r \<Longrightarrow> x \<in> set xs \<Longrightarrow> rootOf P x r"
proof (induction xs arbitrary: b)
  case Nil
  then show ?case by simp
next
  case (Cons y ys)
  show ?case
  proof (cases "x = y")
    case True
    moreover have "y = b" using Cons.prems(1) by simp
    ultimately have "pchain P x (y # ys) r" using Cons.prems(1) by simp
    then show ?thesis unfolding rootOf_def by blast
  next
    case False
    then show ?thesis using Cons by (auto split: option.splits)
  qed
qed

lemma rootOf_self: "P r = None \<Longrightarrow> rootOf P r r"
  unfolding rootOf_def by (rule exI[of _ "[]"]) simp

lemma rootOf_step: "P b = Some q \<Longrightarrow> rootOf P q r \<Longrightarrow> rootOf P b r"
  unfolding rootOf_def by (auto intro: exI[of _ "b # _"])

lemma rootOf_root: "rootOf P b r \<Longrightarrow> P r = None"
  unfolding rootOf_def using pchain_root by blast

lemma rootOf_cases:
  "rootOf P b r \<Longrightarrow> (P b = None \<and> b = r) \<or> (\<exists>q. P b = Some q \<and> rootOf P q r)"
  unfolding rootOf_def
proof (elim exE)
  fix xs assume "pchain P b xs r"
  then show "(P b = None \<and> b = r) \<or> (\<exists>q. P b = Some q \<and> (\<exists>xs. pchain P q xs r))"
    by (cases xs) (auto split: option.splits)
qed

subsection \<open>Path compression\<close>

lemma compressP_rootOf:
  assumes ch: "pchain P b xs r" and y: "rootOf P y r'"
  shows "rootOf (compressP P xs r) y r'"
proof -
  from y obtain ys where "pchain P y ys r'" unfolding rootOf_def by blast
  then show ?thesis
  proof (induction ys arbitrary: y)
    case Nil
    then have "P y = None" "y = r'" by auto
    moreover have "y \<notin> set xs" using pchain_parent[OF ch] \<open>P y = None\<close> by blast
    ultimately show ?case by (auto simp: compressP_def intro!: rootOf_self)
  next
    case (Cons z zs)
    then obtain q where q: "z = y" "P y = Some q" "pchain P q zs r'"
      by (auto split: option.splits)
    show ?case
    proof (cases "y \<in> set xs")
      case True
      from pchain_suffix[OF ch True] have "rootOf P y r" .
      moreover have "rootOf P y r'" using Cons.prems unfolding rootOf_def by blast
      ultimately have "r' = r" using rootOf_unique by blast
      have "r \<notin> set xs" by (rule pchain_root_notin[OF ch])
      then have "rootOf (compressP P xs r) r r"
        using pchain_root[OF ch] by (auto simp: compressP_def intro!: rootOf_self)
      moreover have "compressP P xs r y = Some r" using True by (simp add: compressP_def)
      ultimately show ?thesis using \<open>r' = r\<close> rootOf_step by blast
    next
      case False
      then have "compressP P xs r y = Some q" using q by (simp add: compressP_def)
      then show ?thesis using Cons.IH[OF q(3)] rootOf_step by blast
    qed
  qed
qed

lemma compressP_None: "pchain P b xs r \<Longrightarrow> (compressP P xs r x = None) = (P x = None)"
  using pchain_parent[of P b xs r x] by (auto simp: compressP_def)

lemma pchain_last_child: "pchain P b xs r \<Longrightarrow> xs \<noteq> [] \<Longrightarrow> \<exists>y'. P y' = Some r"
proof (induction xs arbitrary: b)
  case Nil
  then show ?case by simp
next
  case (Cons z zs)
  then obtain q where q: "z = b" "P b = Some q" "pchain P q zs r" by (auto split: option.splits)
  show ?case
  proof (cases zs)
    case Nil
    then have "q = r" using q(3) by simp
    then show ?thesis using q(2) by blast
  next
    case (Cons a as)
    then have "zs \<noteq> []" by simp
    from Cons.IH[OF q(3) this] show ?thesis .
  qed
qed

lemma compressP_child:
  assumes "pchain P b xs r" and "compressP P xs r y = Some c"
  shows "\<exists>y'. P y' = Some c"
proof (cases "y \<in> set xs")
  case False
  then show ?thesis using assms(2) by (auto simp: compressP_def)
next
  case True
  then have c: "c = r" using assms(2) by (simp add: compressP_def)
  have "xs \<noteq> []" using True by auto
  from pchain_last_child[OF assms(1) this] show ?thesis unfolding c .
qed

subsection \<open>Linking two roots\<close>

lemma link_rootOf:
  assumes c: "P c = None" and p: "P p = None" and ne: "c \<noteq> p" and y: "rootOf P y r'"
  shows "rootOf (P(c := Some p)) y (if r' = c then p else r')"
proof -
  from y obtain ys where "pchain P y ys r'" unfolding rootOf_def by blast
  then show ?thesis
  proof (induction ys arbitrary: y)
    case Nil
    then have y: "P y = None" "y = r'" by auto
    show ?case
    proof (cases "y = c")
      case True
      have "rootOf (P(c := Some p)) p p" using p ne by (auto intro!: rootOf_self)
      then have "rootOf (P(c := Some p)) c p" by (rule rootOf_step[rotated]) simp
      then show ?thesis using True y by metis
    next
      case False
      then have "(P(c := Some p)) y = None" using y by simp
      then show ?thesis using y False rootOf_self by metis
    qed
  next
    case (Cons z zs)
    then obtain q where q: "z = y" "P y = Some q" "pchain P q zs r'"
      by (auto split: option.splits)
    then have "y \<noteq> c" using c by auto
    then have "(P(c := Some p)) y = Some q" using q by simp
    then show ?case using Cons.IH[OF q(3)] rootOf_step by blast
  qed
qed

lemma ringPath_unique: "ringPath N b ms r \<Longrightarrow> ringPath N b ms' r \<Longrightarrow> ms = ms'"
proof (induction ms arbitrary: b ms')
  case Nil
  then show ?case by simp
next
  case (Cons x xs)
  then show ?case by (cases ms') (auto split: option.splits if_splits)
qed

lemma ringPath_asleep: "ringPath N b ms r \<Longrightarrow> m \<in> set ms \<Longrightarrow> N m \<noteq> None"
  by (induction ms arbitrary: b) (auto split: option.splits if_splits)

lemma ringPath_cong: "ringPath N b ms r \<Longrightarrow> \<forall>m \<in> set ms. N' m = N m \<Longrightarrow> ringPath N' b ms r"
  by (induction ms arbitrary: b) (auto split: option.splits if_splits)

lemma ringPath_hd: "ringPath N b ms r \<Longrightarrow> b \<in> set ms"
  by (cases ms) auto

subsection \<open>Consequences\<close>

lemma inv_awake_root:
  assumes "awake_rooted v" and "vN v b = None" and "rootOf (vP v) b r"
  shows "vN v r = None"
  using assms unfolding awake_rooted_def using rootOf_unique by blast

lemma inv_asleep_ring:
  assumes "asleep_ringed v" and "vN v b \<noteq> None" and "rootOf (vP v) b r"
  shows "\<exists>ms. ringPath (vN v) r ms r \<and> b \<in> set ms \<and> (\<forall>m \<in> set ms. rootOf (vP v) m r)"
proof -
  from assms(1,2) obtain r0 ms where r: "ringPath (vN v) r0 ms r0" "b \<in> set ms"
    "\<forall>m \<in> set ms. rootOf (vP v) m r0" unfolding asleep_ringed_def by blast
  then have "rootOf (vP v) b r0" by blast
  then have "r0 = r" using assms(3) rootOf_unique by blast
  then show ?thesis using r by blast
qed

lemma inv_asleep_root_asleep:
  assumes "asleep_ringed v" and "vN v b \<noteq> None" and "rootOf (vP v) b r"
  shows "vN v r \<noteq> None"
proof -
  from inv_asleep_ring[OF assms] obtain ms where "ringPath (vN v) r ms r" by blast
  then show ?thesis using ringPath_hd ringPath_asleep by blast
qed

lemma inv_awake_chain:
  assumes B: "awake_rooted v" and C: "asleep_ringed v" and aw: "vN v b = None" and ch: "pchain (vP v) b xs r"
  shows "\<forall>x \<in> set xs \<union> {r}. vN v x = None"
proof
  fix x assume x: "x \<in> set xs \<union> {r}"
  have rb: "rootOf (vP v) b r" using ch unfolding rootOf_def by blast
  have r: "vN v r = None" by (rule inv_awake_root[OF B aw rb])
  show "vN v x = None"
  proof (cases "x = r")
    case True
    then show ?thesis using r by simp
  next
    case False
    then have "x \<in> set xs" using x by simp
    from pchain_suffix[OF ch this] have rx: "rootOf (vP v) x r" .
    show ?thesis
    proof (rule ccontr)
      assume "vN v x \<noteq> None"
      from inv_asleep_root_asleep[OF C this rx] r show False by simp
    qed
  qed
qed

subsection \<open>Path compression keeps the invariant\<close>

lemma forest_inv_compress:
  assumes inv: "forest_inv v bs rogues" and ch: "pchain (vP v) b xs r"
  shows "forest_inv (v\<lparr>vP := compressP (vP v) xs r\<rparr>) bs rogues"
proof -
  let ?v = "v\<lparr>vP := compressP (vP v) xs r\<rparr>"
  note ro = compressP_rootOf[OF ch]
  have B: "awake_rooted ?v" using inv ro unfolding forest_inv_def awake_rooted_def by (simp, blast)
  have C: "asleep_ringed ?v" using inv ro unfolding forest_inv_def asleep_ringed_def by (simp, blast)
  have D: "rogues_covered ?v bs rogues" using inv ro unfolding forest_inv_def rogues_covered_def by (simp, blast)
  have E: "rogues_listed ?v rogues"
    unfolding rogues_listed_def
  proof (intro allI impI)
    fix c assume a: "vR ?v c \<and> (vP ?v c \<noteq> None \<or> (\<exists>y. vP ?v y = Some c))"
    then have "vP v c \<noteq> None \<or> (\<exists>y. vP v y = Some c)"
      using compressP_None[OF ch, of c] compressP_child[OF ch] by auto
    then show "c \<in> set rogues" using inv a unfolding forest_inv_def rogues_listed_def by auto
  qed
  show ?thesis using inv B C D E unfolding forest_inv_def by (simp add: bodies_bound_def rogues_awake_def active_listed_def)
qed

subsection \<open>Zeroing an idle time keeps the invariant\<close>

lemma forest_inv_zero:
  assumes inv: "forest_inv v bs rogues"
  shows "forest_inv (v\<lparr>vZ := (vZ v)(b := True)\<rparr>) bs rogues"
proof -
  have D: "rogues_covered (v\<lparr>vZ := (vZ v)(b := True)\<rparr>) bs rogues"
    unfolding rogues_covered_def
  proof (intro ballI)
    fix R assume "R \<in> set rogues"
    then obtain x where x: "x \<in> set bs \<union> set rogues" "vN v x = None" "vZ v x"
      "\<exists>r. rootOf (vP v) x r \<and> rootOf (vP v) R r" and R: "vN v R = None"
      using inv unfolding forest_inv_def rogues_covered_def by blast
    then show "vN (v\<lparr>vZ := (vZ v)(b := True)\<rparr>) R = None \<and>
           (\<exists>x \<in> set bs \<union> set rogues. vN (v\<lparr>vZ := (vZ v)(b := True)\<rparr>) x = None
              \<and> vZ (v\<lparr>vZ := (vZ v)(b := True)\<rparr>) x
              \<and> (\<exists>r. rootOf (vP (v\<lparr>vZ := (vZ v)(b := True)\<rparr>)) x r
                     \<and> rootOf (vP (v\<lparr>vZ := (vZ v)(b := True)\<rparr>)) R r))"
      by (intro conjI bexI[of _ x]) auto
  qed
  show ?thesis using inv D unfolding forest_inv_def
    by (simp add: awake_rooted_def asleep_ringed_def rogues_listed_def bodies_bound_def rogues_awake_def active_listed_def)
qed

subsection \<open>Linking two awake roots\<close>

lemma link_parts:
  assumes inv: "forest_inv v bs rogues"
    and c: "vP v c = None" "vN v c = None" and p: "vP v p = None" "vN v p = None"
    and ne: "c \<noteq> p"
  shows "awake_rooted (v\<lparr>vP := (vP v)(c := Some p)\<rparr>)"
    and "asleep_ringed (v\<lparr>vP := (vP v)(c := Some p)\<rparr>)"
    and "bodies_bound (v\<lparr>vP := (vP v)(c := Some p)\<rparr>) bs"
    and "rogues_awake (v\<lparr>vP := (vP v)(c := Some p)\<rparr>)"
    and "active_listed (v\<lparr>vP := (vP v)(c := Some p)\<rparr>) bs"
proof -
  let ?P = "(vP v)(c := Some p)"
  note lk = link_rootOf[OF c(1) p(1) ne]
  show "awake_rooted (v\<lparr>vP := ?P\<rparr>)"
    unfolding awake_rooted_def
  proof (intro allI impI)
    fix b assume "vN (v\<lparr>vP := ?P\<rparr>) b = None"
    then have aw: "vN v b = None" by simp
    then obtain r where r: "rootOf (vP v) b r" "vN v r = None"
      using inv unfolding forest_inv_def awake_rooted_def by blast
    from lk[OF r(1)] have "rootOf ?P b (if r = c then p else r)" .
    moreover have "vN v (if r = c then p else r) = None" using r(2) p(2) by simp
    ultimately show "\<exists>r. rootOf (vP (v\<lparr>vP := ?P\<rparr>)) b r \<and> vN (v\<lparr>vP := ?P\<rparr>) r = None"
      by (simp del: fun_upd_apply, blast)
  qed
  show "asleep_ringed (v\<lparr>vP := ?P\<rparr>)"
    unfolding asleep_ringed_def
  proof (intro allI impI)
    fix b assume "vN (v\<lparr>vP := ?P\<rparr>) b \<noteq> None"
    then have "vN v b \<noteq> None" by simp
    then obtain r ms where r: "ringPath (vN v) r ms r" "b \<in> set ms"
      "\<forall>m \<in> set ms. rootOf (vP v) m r"
      using inv unfolding forest_inv_def asleep_ringed_def by blast
    have "vN v r \<noteq> None" using r(1) ringPath_hd ringPath_asleep by blast
    then have "r \<noteq> c" using c(2) by auto
    then have "\<forall>m \<in> set ms. rootOf ?P m r" using r(3) lk by fastforce
    then show "\<exists>r ms. ringPath (vN (v\<lparr>vP := ?P\<rparr>)) r ms r \<and> b \<in> set ms
                 \<and> (\<forall>m \<in> set ms. rootOf (vP (v\<lparr>vP := ?P\<rparr>)) m r)"
      using r(1,2) by (simp del: fun_upd_apply, blast)
  qed
  show "bodies_bound (v\<lparr>vP := ?P\<rparr>) bs" using inv unfolding forest_inv_def bodies_bound_def by simp
  show "rogues_awake (v\<lparr>vP := ?P\<rparr>)" using inv unfolding forest_inv_def rogues_awake_def by simp
  show "active_listed (v\<lparr>vP := ?P\<rparr>) bs" using inv unfolding forest_inv_def active_listed_def by simp
qed

lemma link_sameroot:
  assumes c: "vP v c = None" and p: "vP v p = None" and ne: "c \<noteq> p"
    and "rootOf (vP v) x rx" and "rootOf (vP v) y ry"
    and "rx = ry \<or> (rx \<in> {c, p} \<and> ry \<in> {c, p})"
  shows "\<exists>r. rootOf ((vP v)(c := Some p)) x r \<and> rootOf ((vP v)(c := Some p)) y r"
proof -
  note lk = link_rootOf[OF c p ne]
  from lk[OF assms(4)] lk[OF assms(5)] assms(6) show ?thesis by (auto split: if_splits)
qed

lemma link_rogues_listed:
  assumes inv: "rogues_listed v rogues" and sub: "set rogues \<subseteq> set rogues'"
    and c: "vR v c \<longrightarrow> c \<in> set rogues'" and p: "vR v p \<longrightarrow> p \<in> set rogues'"
  shows "rogues_listed (v\<lparr>vP := (vP v)(c := Some p)\<rparr>) rogues'"
  unfolding rogues_listed_def
proof (intro allI impI)
  fix b assume a: "vR (v\<lparr>vP := (vP v)(c := Some p)\<rparr>) b \<and>
         (vP (v\<lparr>vP := (vP v)(c := Some p)\<rparr>) b \<noteq> None
          \<or> (\<exists>y. vP (v\<lparr>vP := (vP v)(c := Some p)\<rparr>) y = Some b))"
  then have R: "vR v b" by simp
  from a have "b = c \<or> b = p \<or> vP v b \<noteq> None \<or> (\<exists>y. vP v y = Some b)"
    by (auto split: if_splits)
  then show "b \<in> set rogues'" using R c p inv sub unfolding rogues_listed_def by blast
qed

subsection \<open>Waking a ring keeps the invariant\<close>

lemma pchain_cong:
  "pchain P y ys ry \<Longrightarrow> \<forall>x \<in> set ys \<union> {ry}. P' x = P x \<Longrightarrow> pchain P' y ys ry"
proof (induction ys arbitrary: y)
  case Nil
  then show ?case by auto
next
  case (Cons z zs)
  then obtain q where q: "z = y" "P y = Some q" "pchain P q zs ry" by (auto split: option.splits)
  have "P' y = Some q" using Cons.prems(2) q by simp
  moreover have "pchain P' q zs ry" using Cons.IH[OF q(3)] Cons.prems(2) by simp
  ultimately show ?case using q(1) by simp
qed

lemma pchain_nodes_rooted:
  assumes "pchain P y ys ry" and "x \<in> set ys \<union> {ry}"
  shows "rootOf P x ry"
proof (cases "x = ry")
  case True
  then show ?thesis using pchain_root[OF assms(1)] rootOf_self by blast
next
  case False
  then show ?thesis using assms pchain_suffix by auto
qed

lemma forest_inv_clear:
  assumes inv: "forest_inv v bs rogues" and ring: "ringPath (vN v) r ms r" and root: "vP v r = None"
    and bs': "set bs' = set bs \<union> set ms"
  shows "forest_inv (clearV v ms) bs' rogues"
proof -
  from inv have B: "awake_rooted v" and C: "asleep_ringed v" and D: "rogues_covered v bs rogues" and E: "rogues_listed v rogues"
    and F: "bodies_bound v bs" and H: "rogues_awake v" and I: "active_listed v bs" unfolding forest_inv_def by auto
  have asleep: "\<forall>m \<in> set ms. vN v m \<noteq> None" using ring ringPath_asleep by blast
  have rooted: "\<forall>m \<in> set ms. rootOf (vP v) m r"
  proof -
    have "vN v r \<noteq> None" using asleep ringPath_hd[OF ring] by blast
    from inv_asleep_ring[OF C this rootOf_self[of "vP v" r, OF root]] obtain ms0 where
      "ringPath (vN v) r ms0 r" "\<forall>m \<in> set ms0. rootOf (vP v) m r" by blast
    then show ?thesis using ringPath_unique[OF ring] by blast
  qed
  have awake_chain: "rootOf (vP (clearV v ms)) y ry"
    if "vN v y = None" "rootOf (vP v) y ry" for y ry
  proof -
    from that(2) obtain ys where ys: "pchain (vP v) y ys ry" unfolding rootOf_def by blast
    from inv_awake_chain[OF B C that(1) ys] asleep
    have "\<forall>x \<in> set ys \<union> {ry}. x \<notin> set ms" by blast
    then have "\<forall>x \<in> set ys \<union> {ry}. vP (clearV v ms) x = vP v x" by (simp add: clearV_def)
    from pchain_cong[OF ys this] show ?thesis unfolding rootOf_def by blast
  qed
  have B': "awake_rooted (clearV v ms)"
    unfolding awake_rooted_def
  proof (intro allI impI)
    fix b assume a: "vN (clearV v ms) b = None"
    show "\<exists>r. rootOf (vP (clearV v ms)) b r \<and> vN (clearV v ms) r = None"
    proof (cases "b \<in> set ms")
      case True
      then have "vP (clearV v ms) b = None" "vN (clearV v ms) b = None" by (simp_all add: clearV_def)
      then show ?thesis using rootOf_self by blast
    next
      case False
      then have aw: "vN v b = None" using a by (simp add: clearV_def)
      then obtain rb where rb: "rootOf (vP v) b rb" "vN v rb = None" using B unfolding awake_rooted_def by blast
      have "vN (clearV v ms) rb = None" using rb(2) by (simp add: clearV_def)
      then show ?thesis using awake_chain[OF aw rb(1)] by blast
    qed
  qed
  have C': "asleep_ringed (clearV v ms)"
    unfolding asleep_ringed_def
  proof (intro allI impI)
    fix b assume a: "vN (clearV v ms) b \<noteq> None"
    then have nb: "b \<notin> set ms" and sl: "vN v b \<noteq> None" by (auto simp: clearV_def split: if_splits)
    from C sl obtain r0 ms0 where r0: "ringPath (vN v) r0 ms0 r0" "b \<in> set ms0"
      "\<forall>m \<in> set ms0. rootOf (vP v) m r0" unfolding asleep_ringed_def by blast
    have ne: "r0 \<noteq> r"
    proof
      assume "r0 = r"
      then have "ms0 = ms" using ringPath_unique[OF ring] r0(1) by blast
      then show False using nb r0(2) by simp
    qed
    have notin: "x \<notin> set ms" if "rootOf (vP v) x r0" for x
      using that rooted rootOf_unique ne by blast
    have "\<forall>m \<in> set ms0. vN (clearV v ms) m = vN v m" using r0(3) notin by (simp add: clearV_def)
    from ringPath_cong[OF r0(1) this] have ring': "ringPath (vN (clearV v ms)) r0 ms0 r0" .
    have "rootOf (vP (clearV v ms)) m r0" if "m \<in> set ms0" for m
    proof -
      from r0(3) that obtain zs where zs: "pchain (vP v) m zs r0" unfolding rootOf_def by blast
      have "\<forall>x \<in> set zs \<union> {r0}. x \<notin> set ms"
        using pchain_nodes_rooted[OF zs] notin by blast
      then have "\<forall>x \<in> set zs \<union> {r0}. vP (clearV v ms) x = vP v x" by (simp add: clearV_def)
      from pchain_cong[OF zs this] show ?thesis unfolding rootOf_def by blast
    qed
    then show "\<exists>r ms'. ringPath (vN (clearV v ms)) r ms' r \<and> b \<in> set ms'
                 \<and> (\<forall>m \<in> set ms'. rootOf (vP (clearV v ms)) m r)"
      using ring' r0(2) by blast
  qed
  have D': "rogues_covered (clearV v ms) bs' rogues"
    unfolding rogues_covered_def
  proof (intro ballI)
    fix R assume "R \<in> set rogues"
    then obtain x rr where x: "x \<in> set bs \<union> set rogues" "vN v x = None" "vZ v x"
      "rootOf (vP v) x rr" "rootOf (vP v) R rr" and R: "vN v R = None"
      using D unfolding rogues_covered_def by blast
    have "vN (clearV v ms) R = None" "vN (clearV v ms) x = None" "vZ (clearV v ms) x"
      using x R by (simp_all add: clearV_def)
    moreover have "x \<in> set bs' \<union> set rogues" using x(1) bs' by auto
    ultimately show "vN (clearV v ms) R = None \<and> (\<exists>x \<in> set bs' \<union> set rogues.
         vN (clearV v ms) x = None \<and> vZ (clearV v ms) x
         \<and> (\<exists>r. rootOf (vP (clearV v ms)) x r \<and> rootOf (vP (clearV v ms)) R r))"
      using awake_chain[OF x(2,4)] awake_chain[OF R x(5)] by blast
  qed
  have E': "rogues_listed (clearV v ms) rogues"
    using E unfolding rogues_listed_def by (auto simp: clearV_def split: if_splits)
  have F': "bodies_bound (clearV v ms) bs'"
    using F H asleep bs' unfolding bodies_bound_def rogues_awake_def by (auto simp: clearV_def)
  have H': "rogues_awake (clearV v ms)" using H unfolding rogues_awake_def by (simp add: clearV_def)
  have I': "active_listed (clearV v ms) bs'"
    using I bs' unfolding active_listed_def by (auto simp: clearV_def split: if_splits)
  show ?thesis using B' C' D' E' F' H' I' unfolding forest_inv_def by simp
qed

lemma view_of_upd_parent:
  assumes "h b = Some B"
  shows "view_of (h(b \<mapsto> B\<lparr>node := (node B)\<lparr>parent := p\<rparr>\<rparr>))
         = (view_of h)\<lparr>vP := (vP (view_of h))(b := p)\<rparr>"
  using assms
  by (auto simp: view_of_def fun_eq_iff cpBodyIsRogue_def cpBodyIsStatic_def)

lemma view_of_upd_rank:
  assumes "h b = Some B"
  shows "view_of (h(b \<mapsto> B\<lparr>node := (node B)\<lparr>rank := k\<rparr>\<rparr>)) = view_of h"
  using assms
  by (auto simp: view_of_def fun_eq_iff cpBodyIsRogue_def cpBodyIsStatic_def)

lemma view_of_upd_idle:
  assumes "h b = Some B"
  shows "view_of (h(b \<mapsto> B\<lparr>node := (node B)\<lparr>idleTime := 0\<rparr>\<rparr>))
         = (view_of h)\<lparr>vZ := (vZ (view_of h))(b := True)\<rparr>"
  using assms
  by (auto simp: view_of_def fun_eq_iff cpBodyIsRogue_def cpBodyIsStatic_def)

lemma view_of_upd_clear:
  assumes "h b = Some B"
  shows "view_of (h(b \<mapsto> B\<lparr>node := \<lparr>parent = None, next = None, rank = 0, idleTime = 0\<rparr>\<rparr>))
         = clearV (view_of h) [b]"
  using assms
  by (auto simp: view_of_def clearV_def fun_eq_iff cpBodyIsRogue_def cpBodyIsStatic_def)

lemma clearV_clearV: "clearV (clearV v [b]) ms = clearV v (b # ms)"
proof -
  have "(\<lambda>x. if x \<in> set ms then None else if x = b then None else vP v x)
        = (\<lambda>x. if x = b \<or> x \<in> set ms then None else vP v x)"
       "(\<lambda>x. if x \<in> set ms then None else if x = b then None else vN v x)
        = (\<lambda>x. if x = b \<or> x \<in> set ms then None else vN v x)"
       "(\<lambda>x. x \<in> set ms \<or> x = b \<or> vZ v x) = (\<lambda>x. x = b \<or> x \<in> set ms \<or> vZ v x)"
    by (auto simp: fun_eq_iff)
  then show ?thesis by (simp add: clearV_def cong: if_cong)
qed

lemma compressP_Nil: "compressP P [] r = P"
  by (simp add: compressP_def)

lemma compressP_Cons: "(compressP P xs r)(b := Some r) = compressP P (b # xs) r"
  by (auto simp: compressP_def fun_eq_iff)

lemma componentNodeRoot_view:
  assumes "componentNodeRoot h b = Some res"
  shows "\<exists>xs. pchain (vP (view_of h)) b xs (fst res)
            \<and> view_of (snd res) = (view_of h)\<lparr>vP := compressP (vP (view_of h)) xs (fst res)\<rparr>
            \<and> snd res (fst res) \<noteq> None"
  using assms
proof (induct rule: componentNodeRoot.raw_induct[rotated, consumes 1, case_names step])
  case (step self h body res)
  from step(2) obtain B where B: "h body = Some B" by (auto split: option.splits)
  show ?case
  proof (cases "parent (node B)")
    case None
    then have "res = (body, h)" using step(2) B by simp
    moreover have "pchain (vP (view_of h)) body [] body" using B None by (simp add: view_of_def)
    ultimately show ?thesis using B by (intro exI[of _ "[]"]) (simp add: compressP_Nil)
  next
    case (Some p)
    with step(2) B obtain r h1 B' where s: "self h p = Some (r, h1)" "h1 body = Some B'"
      "res = (r, h1(body \<mapsto> B'\<lparr>node := (node B')\<lparr>parent := Some r\<rparr>\<rparr>))"
      by (auto split: Option.bind_splits option.splits)
    from step(1)[OF s(1)] obtain xs where xs: "pchain (vP (view_of h)) p xs r"
      "view_of h1 = (view_of h)\<lparr>vP := compressP (vP (view_of h)) xs r\<rparr>" "h1 r \<noteq> None"
      by auto
    have ch: "pchain (vP (view_of h)) body (body # xs) r"
      using xs(1) B Some by (simp add: view_of_def)
    have "view_of (snd res) = (view_of h1)\<lparr>vP := (vP (view_of h1))(body := Some r)\<rparr>"
      using s(3) view_of_upd_parent[of h1 body B' "Some r"] s(2) by simp
    also have "\<dots> = (view_of h)\<lparr>vP := compressP (vP (view_of h)) (body # xs) r\<rparr>"
      using xs(2) compressP_Cons[of "vP (view_of h)" xs r body] by simp
    finally have v: "view_of (snd res) = (view_of h)\<lparr>vP := compressP (vP (view_of h)) (body # xs) r\<rparr>" .
    have nn: "snd res (fst res) \<noteq> None" using s(3) xs(3) by simp
    have f: "fst res = r" using s(3) by simp
    show ?thesis using ch v nn unfolding f by blast
  qed
qed

lemma componentNodeMerge_view:
  assumes "componentNodeMerge h a b = Some h'"
  shows "h a \<noteq> None \<and> h b \<noteq> None \<and>
         ((a = b \<and> view_of h' = view_of h)
          \<or> (a \<noteq> b \<and> view_of h' = (view_of h)\<lparr>vP := (vP (view_of h))(a := Some b)\<rparr>)
          \<or> (a \<noteq> b \<and> view_of h' = (view_of h)\<lparr>vP := (vP (view_of h))(b := Some a)\<rparr>))"
proof -
  from assms obtain A B where AB: "h a = Some A" "h b = Some B"
    by (auto simp: componentNodeMerge_def split: Option.bind_splits)
  consider (lt) "rank (node A) < rank (node B)" | (gt) "rank (node A) > rank (node B)"
    | (eq) "rank (node A) = rank (node B)" "a \<noteq> b" | (same) "rank (node A) = rank (node B)" "a = b"
    by linarith
  then show ?thesis
  proof cases
    case lt
    then have "h' = h(a \<mapsto> A\<lparr>node := (node A)\<lparr>parent := Some b\<rparr>\<rparr>)" "a \<noteq> b"
      using assms AB by (auto simp: componentNodeMerge_def)
    then show ?thesis using AB view_of_upd_parent[of h a A "Some b"] by simp
  next
    case gt
    then have "h' = h(b \<mapsto> B\<lparr>node := (node B)\<lparr>parent := Some a\<rparr>\<rparr>)" "a \<noteq> b"
      using assms AB by (auto simp: componentNodeMerge_def)
    then show ?thesis using AB view_of_upd_parent[of h b B "Some a"] by simp
  next
    case eq
    define h1 where "h1 = h(b \<mapsto> B\<lparr>node := (node B)\<lparr>parent := Some a\<rparr>\<rparr>)"
    have a1: "h1 a = Some A" using AB eq by (simp add: h1_def)
    have "h' = h1(a \<mapsto> A\<lparr>node := (node A)\<lparr>rank := rank (node A) + 1\<rparr>\<rparr>)"
      using assms AB eq a1 by (simp add: componentNodeMerge_def h1_def Let_def)
    then have "view_of h' = view_of h1"
      using view_of_upd_rank[of h1 a A "rank (node A) + 1"] a1 by simp
    then show ?thesis using AB eq view_of_upd_parent[of h b B "Some a"] by (simp add: h1_def)
  next
    case same
    then have "h' = h" using assms AB by (simp add: componentNodeMerge_def)
    then show ?thesis using AB same by simp
  qed
qed

lemma activation_frame_refl: "activation_frame w w"
  by (simp add: activation_frame_def)

lemma activation_frame_trans:
  "activation_frame w w1 \<Longrightarrow> activation_frame w1 w2 \<Longrightarrow> activation_frame w w2"
  by (simp add: activation_frame_def)

lemma restoreArbiter_aframe:
  assumes "restoreArbiter w x = Some w'" shows "activation_frame w w'"
proof -
  from assms obtain A where A: "arbH w x = Some A"
    by (auto simp: restoreArbiter_def split: Option.bind_splits)
  from restoreArbiter_post[OF A assms] show ?thesis
    by (auto simp: activation_frame_def)
qed

lemma activateShapes_aframe:
  assumes "activateShapes w sp = Some w'" shows "activation_frame w w'"
  using assms
proof (induct rule: activateShapes.raw_induct[rotated, consumes 1, case_names step])
  case (step self w sp w')
  then show ?case by (auto simp: activation_frame_def split: option.splits)
qed

lemma activateArbiters_aframe:
  assumes "activateArbiters w body ap = Some w'" shows "activation_frame w w'"
  using assms
proof (induct rule: activateArbiters.raw_induct[rotated, consumes 1, case_names step])
  case (step self w body ap w')
  show ?case
  proof (cases ap)
    case None
    then show ?thesis using step(2) by (simp add: activation_frame_refl)
  next
    case (Some arb)
    with step(2) obtain prim w1 nxt where
      s: "(if prim then restoreArbiter w arb else Some w) = Some w1"
         "self w1 body nxt = Some w'"
      by (auto split: Option.bind_splits)
    have "activation_frame w w1"
      using s(1) by (cases prim) (auto simp: restoreArbiter_aframe activation_frame_refl)
    from activation_frame_trans[OF this step(1)[OF s(2)]] show ?thesis .
  qed
qed

lemma activateConstraints_aframe:
  assumes "activateConstraints w body cp = Some w'" shows "activation_frame w w'"
  using assms
proof (induct rule: activateConstraints.raw_induct[rotated, consumes 1, case_names step])
  case (step self w body cp w')
  show ?case
  proof (cases cp)
    case None
    then show ?thesis using step(2) by (simp add: activation_frame_refl)
  next
    case (Some c)
    with step(2) obtain prim nxt where
      s: "self (if prim then w\<lparr>constraints := cpArrayPush (constraints w) c\<rparr> else w) body nxt
          = Some w'"
      by (auto simp: Let_def split: Option.bind_splits)
    have "activation_frame w (if prim then w\<lparr>constraints := cpArrayPush (constraints w) c\<rparr> else w)"
      by (simp add: activation_frame_def)
    from activation_frame_trans[OF this step(1)[OF s]] show ?thesis .
  qed
qed

lemma cpSpaceActivateBody_unlocked:
  assumes "\<not> locked w" and "cpSpaceActivateBody w body = Some w'"
  shows "bodyH w' = bodyH w \<and> \<not> locked w' \<and> sleepTimeThreshold w' = sleepTimeThreshold w
         \<and> bodies w' = bodies w @ [body]"
proof -
  define w1 where "w1 = w\<lparr>bodies := cpArrayPush (bodies w) body\<rparr>"
  from assms obtain B1 w2 B2 w3 B3 where
    s: "bodyH w1 body = Some B1" "activateShapes w1 (shapeList B1) = Some w2"
       "bodyH w2 body = Some B2" "activateArbiters w2 body (arbiterList B2) = Some w3"
       "bodyH w3 body = Some B3" "activateConstraints w3 body (constraintList B3) = Some w'"
    by (auto simp: cpSpaceActivateBody_def Let_def w1_def split: Option.bind_splits)
  have "activation_frame w1 w'"
    by (rule activation_frame_trans[OF activateShapes_aframe[OF s(2)]
          activation_frame_trans[OF activateArbiters_aframe[OF s(4)]
            activateConstraints_aframe[OF s(6)]]])
  then show ?thesis using assms(1) by (simp add: activation_frame_def w1_def cpArrayPush_def)
qed

lemma componentActivate_ring_view:
  assumes "componentActivate_ring w croot body = Some w'" and "\<not> locked w"
  shows "\<exists>ms. ringPath (vN (view_of (bodyH w))) body ms croot
            \<and> view_of (bodyH w') = clearV (view_of (bodyH w)) ms
            \<and> bodies w' = bodies w @ ms \<and> \<not> locked w'
            \<and> sleepTimeThreshold w' = sleepTimeThreshold w"
  using assms
proof (induct rule: componentActivate_ring.raw_induct[rotated, consumes 1, case_names step])
  case (step self w croot body w')
  from step(2) obtain B where B: "bodyH w body = Some B" by (auto split: option.splits)
  define w1 where "w1 = w\<lparr>bodyH := (bodyH w)(body \<mapsto>
                         B\<lparr>node := \<lparr>parent = None, next = None, rank = 0, idleTime = 0\<rparr>\<rparr>)\<rparr>"
  from step(2) B obtain w2 n where s: "cpSpaceActivateBody w1 body = Some w2"
    "next (node B) = Some n" "(n = croot \<and> w' = w2) \<or> (n \<noteq> croot \<and> self w2 croot n = Some w')"
    by (auto simp: Let_def w1_def split: option.splits Option.bind_splits if_splits)
  have ul1: "\<not> locked w1" using step(3) by (simp add: w1_def)
  from cpSpaceActivateBody_unlocked[OF ul1 s(1)] have
    f: "bodyH w2 = bodyH w1" "\<not> locked w2" "sleepTimeThreshold w2 = sleepTimeThreshold w"
       "bodies w2 = bodies w @ [body]"
    by (simp_all add: w1_def)
  have v2: "view_of (bodyH w2) = clearV (view_of (bodyH w)) [body]"
    using f(1) view_of_upd_clear[of "bodyH w" body B] B by (simp add: w1_def)
  have N: "vN (view_of (bodyH w)) body = Some n" using B s(2) by (simp add: view_of_def)
  from s(3) show ?case
  proof
    assume a: "n = croot \<and> w' = w2"
    then have "ringPath (vN (view_of (bodyH w))) body [body] croot" using N by simp
    then show ?thesis using a v2 f by (intro exI[of _ "[body]"]) simp
  next
    assume a: "n \<noteq> croot \<and> self w2 croot n = Some w'"
    then have run: "self w2 croot n = Some w'" by simp
    from step(1)[OF run f(2)] obtain ms where ms:
      "ringPath (vN (view_of (bodyH w2))) n ms croot"
      "view_of (bodyH w') = clearV (view_of (bodyH w2)) ms"
      "bodies w' = bodies w2 @ ms" "\<not> locked w'" "sleepTimeThreshold w' = sleepTimeThreshold w2"
      by blast
    have "\<forall>m \<in> set ms. vN (view_of (bodyH w2)) m \<noteq> None" using ms(1) ringPath_asleep by blast
    then have "\<forall>m \<in> set ms. vN (view_of (bodyH w)) m = vN (view_of (bodyH w2)) m"
      unfolding v2 by (auto simp: clearV_def split: if_splits)
    from ringPath_cong[OF ms(1) this] have "ringPath (vN (view_of (bodyH w))) n ms croot" .
    then have r: "ringPath (vN (view_of (bodyH w))) body (body # ms) croot" using N a by simp
    have "view_of (bodyH w') = clearV (view_of (bodyH w)) (body # ms)"
      using ms(2) v2 clearV_clearV by simp
    then show ?thesis using r ms f by (intro exI[of _ "body # ms"]) simp
  qed
qed

lemma wake_step_refl: "wake_step v bs v bs"
  by (auto simp: wake_step_def)

lemma wake_stepD:
  assumes "wake_step v bs v' bs'"
  shows "vR v' = vR v" and "vA v' = vA v" and "set bs \<subseteq> set bs'"
    and "\<And>x. vP v x = None \<Longrightarrow> vP v' x = None"
    and "\<And>x. vN v x = None \<Longrightarrow> vN v' x = None"
    and "\<And>x. vZ v x \<Longrightarrow> vZ v' x"
    and "\<And>x rx. vN v x = None \<Longrightarrow> rootOf (vP v) x rx \<Longrightarrow> rootOf (vP v') x rx"
    and "\<And>x. vN v x \<noteq> None \<Longrightarrow> vN v' x = None \<Longrightarrow> vZ v' x \<and> x \<in> set bs'"
  using assms unfolding wake_step_def by auto

lemma wake_step_trans:
  assumes s1: "wake_step v bs v1 bs1" and s2: "wake_step v1 bs1 v2 bs2"
  shows "wake_step v bs v2 bs2"
proof -
  note a = wake_stepD[OF s1] and b = wake_stepD[OF s2]
  have woken: "vZ v2 x \<and> x \<in> set bs2" if "vN v x \<noteq> None" "vN v2 x = None" for x
  proof (cases "vN v1 x = None")
    case True
    from a(8)[OF that(1) True] have "vZ v1 x" "x \<in> set bs1" by simp_all
    then show ?thesis using b(6)[of x] b(3) by auto
  next
    case False
    then show ?thesis using b(8)[OF False that(2)] by simp
  qed
  have chain: "rootOf (vP v2) x rx" if "vN v x = None" "rootOf (vP v) x rx" for x rx
    using b(7)[OF a(5)[OF that(1)] a(7)[OF that]] .
  show ?thesis
    unfolding wake_step_def
  proof (intro conjI)
    show "vR v2 = vR v" "vA v2 = vA v" using a(1,2) b(1,2) by simp_all
    show "set bs \<subseteq> set bs2" using a(3) b(3) by auto
    show "\<forall>x. vP v x = None \<longrightarrow> vP v2 x = None" using a(4) b(4) by auto
    show "\<forall>x. vN v x = None \<longrightarrow> vN v2 x = None" using a(5) b(5) by auto
    show "\<forall>x. vZ v x \<longrightarrow> vZ v2 x" using a(6) b(6) by auto
    show "\<forall>x rx. vN v x = None \<and> rootOf (vP v) x rx \<longrightarrow> rootOf (vP v2) x rx"
      using chain by auto
    show "\<forall>x. vN v x \<noteq> None \<and> vN v2 x = None \<longrightarrow> vZ v2 x \<and> x \<in> set bs2"
      using woken by auto
  qed
qed

lemma componentActivate_wake:
  assumes inv: "space_inv w rogues" and root: "vP (view_of (bodyH w)) r = None"
    and run: "componentActivate w r = Some w'"
  shows "space_inv w' rogues \<and> sleepTimeThreshold w' = sleepTimeThreshold w
         \<and> wake_step (view_of (bodyH w)) (bodies w) (view_of (bodyH w')) (bodies w')
         \<and> vN (view_of (bodyH w')) r = None"
proof -
  let ?v = "view_of (bodyH w)"
  from run obtain R where R: "bodyH w r = Some R"
    by (auto simp: componentActivate_def split: Option.bind_splits)
  have N: "vN ?v r = next (node R)" using R by (simp add: view_of_def)
  show ?thesis
  proof (cases "cpBodyIsSleeping R")
    case False
    then have "w' = w" using run R by (simp add: componentActivate_def)
    moreover have "vN ?v r = None" using False N by (simp add: cpBodyIsSleeping_def)
    ultimately show ?thesis using inv by (simp add: wake_step_refl)
  next
    case True
    then obtain w1 where w1: "componentActivate_ring w r r = Some w1"
      and w': "w' = w1\<lparr>sleepingComponents := cpArrayDeleteObj (sleepingComponents w1) r\<rparr>"
      using run R by (auto simp: componentActivate_def split: Option.bind_splits if_splits)
    from inv have ul: "\<not> locked w" and I: "forest_inv ?v (bodies w) rogues" by (simp_all add: space_inv_def)
    from componentActivate_ring_view[OF w1 ul] obtain ms where ms:
      "ringPath (vN ?v) r ms r" "view_of (bodyH w1) = clearV ?v ms"
      "bodies w1 = bodies w @ ms" "\<not> locked w1" "sleepTimeThreshold w1 = sleepTimeThreshold w"
      by blast
    have bs: "set (bodies w1) = set (bodies w) \<union> set ms" using ms(3) by simp
    from forest_inv_clear[OF I ms(1) root bs] have I1: "forest_inv (clearV ?v ms) (bodies w1) rogues" .
    have rin: "r \<in> set ms" by (rule ringPath_hd[OF ms(1)])
    have asleep: "\<forall>m \<in> set ms. vN ?v m \<noteq> None" using ms(1) ringPath_asleep by blast
    have B: "awake_rooted ?v" and C: "asleep_ringed ?v" using I by (simp_all add: forest_inv_def)
    have chain: "rootOf (vP (clearV ?v ms)) x rx" if "vN ?v x = None" "rootOf (vP ?v) x rx" for x rx
    proof -
      from that(2) obtain ys where ys: "pchain (vP ?v) x ys rx" unfolding rootOf_def by blast
      from inv_awake_chain[OF B C that(1) ys] asleep
      have "\<forall>z \<in> set ys \<union> {rx}. z \<notin> set ms" by blast
      then have "\<forall>z \<in> set ys \<union> {rx}. vP (clearV ?v ms) z = vP ?v z" by (simp add: clearV_def)
      from pchain_cong[OF ys this] show ?thesis unfolding rootOf_def by blast
    qed
    have "wake_step ?v (bodies w) (clearV ?v ms) (bodies w1)"
      unfolding wake_step_def using chain bs by (auto simp: clearV_def split: if_splits)
    moreover have "vN (clearV ?v ms) r = None" using rin by (simp add: clearV_def)
    ultimately show ?thesis using I1 ms w' by (simp add: space_inv_def)
  qed
qed

lemma forest_inv_rogues_mono_parts:
  assumes "forest_inv v bs rogues"
  shows "awake_rooted v" "asleep_ringed v" "bodies_bound v bs" "rogues_awake v" "active_listed v bs"
  using assms unfolding forest_inv_def by simp_all

lemma tail_forest_inv:
  assumes inv: "forest_inv v bs rogues"
    and roots: "vP v ra = None" "vP v rb = None" "vN v ra = None" "vN v rb = None"
    and v': "(ra = rb \<and> v' = v)
             \<or> (ra \<noteq> rb \<and> v' = v\<lparr>vP := (vP v)(ra := Some rb)\<rparr>)
             \<or> (ra \<noteq> rb \<and> v' = v\<lparr>vP := (vP v)(rb := Some ra)\<rparr>)"
    and sub: "set rogues \<subseteq> set rogues'"
    and new: "\<forall>R \<in> set rogues' - set rogues.
                vN v R = None \<and> (rootOf (vP v) R ra \<or> rootOf (vP v) R rb)
                \<and> (\<exists>x \<in> set bs \<union> set rogues'. vN v x = None \<and> vZ v x
                       \<and> (rootOf (vP v) x ra \<or> rootOf (vP v) x rb))"
    and era: "vR v ra \<longrightarrow> ra \<in> set rogues'" and erb: "vR v rb \<longrightarrow> rb \<in> set rogues'"
  shows "forest_inv v' bs rogues'"
proof -
  from inv have D: "rogues_covered v bs rogues" and E: "rogues_listed v rogues" unfolding forest_inv_def by simp_all
  note parts = forest_inv_rogues_mono_parts[OF inv]
  have same: "\<exists>r. rootOf (vP v') x r \<and> rootOf (vP v') y r"
    if "rootOf (vP v) x rx" "rootOf (vP v) y ry" "rx = ry \<or> (rx \<in> {ra, rb} \<and> ry \<in> {ra, rb})"
    for x y rx ry
  proof -
    from v' consider (eq) "ra = rb" "v' = v" | (ab) "ra \<noteq> rb" "v' = v\<lparr>vP := (vP v)(ra := Some rb)\<rparr>"
      | (ba) "ra \<noteq> rb" "v' = v\<lparr>vP := (vP v)(rb := Some ra)\<rparr>" by blast
    then show ?thesis
    proof cases
      case eq
      then have "rx = ry" using that(3) by auto
      then show ?thesis using that(1,2) eq by auto
    next
      case ab
      have "rx = ry \<or> (rx \<in> {ra, rb} \<and> ry \<in> {ra, rb})" using that(3) by simp
      from link_sameroot[OF roots(1,2) ab(1) that(1,2) this] show ?thesis using ab(2) by simp
    next
      case ba
      have "rx = ry \<or> (rx \<in> {rb, ra} \<and> ry \<in> {rb, ra})" using that(3) by auto
      from link_sameroot[OF roots(2,1) ba(1)[symmetric] that(1,2) this] show ?thesis
        using ba(2) by simp
    qed
  qed
  have NZ: "vN v' = vN v" "vZ v' = vZ v" "vR v' = vR v" "vA v' = vA v" using v' by auto
  have D': "rogues_covered v' bs rogues'"
    unfolding rogues_covered_def
  proof (intro ballI)
    fix R assume R: "R \<in> set rogues'"
    show "vN v' R = None \<and> (\<exists>x \<in> set bs \<union> set rogues'. vN v' x = None \<and> vZ v' x
             \<and> (\<exists>r. rootOf (vP v') x r \<and> rootOf (vP v') R r))"
    proof (cases "R \<in> set rogues")
      case True
      then obtain x r where x: "x \<in> set bs \<union> set rogues" "vN v x = None" "vZ v x"
        "rootOf (vP v) x r" "rootOf (vP v) R r" and RN: "vN v R = None"
        using D unfolding rogues_covered_def by blast
      from same[OF x(4,5)] have "\<exists>r. rootOf (vP v') x r \<and> rootOf (vP v') R r" by simp
      moreover have "x \<in> set bs \<union> set rogues'" using x(1) sub by auto
      ultimately show ?thesis using x(2,3) RN NZ by auto
    next
      case False
      then have "R \<in> set rogues' - set rogues" using R by simp
      with new obtain x where x: "vN v R = None" "rootOf (vP v) R ra \<or> rootOf (vP v) R rb"
        "x \<in> set bs \<union> set rogues'" "vN v x = None" "vZ v x"
        "rootOf (vP v) x ra \<or> rootOf (vP v) x rb" by blast
      from x(2,6) obtain rx rR where r: "rootOf (vP v) x rx" "rootOf (vP v) R rR"
        "rx \<in> {ra, rb}" "rR \<in> {ra, rb}" by auto
      from same[OF r(1,2)] r(3,4) have "\<exists>r. rootOf (vP v') x r \<and> rootOf (vP v') R r" by simp
      then show ?thesis using x(1,3,4,5) NZ by auto
    qed
  qed
  from v' consider (eq) "ra = rb" "v' = v" | (ab) "ra \<noteq> rb" "v' = v\<lparr>vP := (vP v)(ra := Some rb)\<rparr>"
      | (ba) "ra \<noteq> rb" "v' = v\<lparr>vP := (vP v)(rb := Some ra)\<rparr>" by blast
  then show ?thesis
  proof cases
    case eq
    have "rogues_listed v' rogues'" using E sub eq unfolding rogues_listed_def by auto
    then show ?thesis using parts D' eq unfolding forest_inv_def by simp
  next
    case ab
    note lp = link_parts[OF inv roots(1,3) roots(2,4) ab(1)]
    have "rogues_listed v' rogues'" using link_rogues_listed[OF E sub era erb] ab(2) by simp
    then show ?thesis using lp D' ab(2) unfolding forest_inv_def by simp
  next
    case ba
    note lp = link_parts[OF inv roots(2,4) roots(1,3) ba(1)[symmetric]]
    have "rogues_listed v' rogues'" using link_rogues_listed[OF E sub erb era] ba(2) by simp
    then show ?thesis using lp D' ba(2) unfolding forest_inv_def by simp
  qed
qed

lemma rootOf_child:
  assumes "rootOf P a r" and "a \<noteq> r"
  shows "\<exists>y. P y = Some r"
proof -
  from assms(1) obtain xs where xs: "pchain P a xs r" unfolding rootOf_def by blast
  with assms(2) have "xs \<noteq> []" by (cases xs) auto
  from pchain_last_child[OF xs this] show ?thesis .
qed

lemma view_of_flags:
  assumes "h b = Some B"
  shows "vR (view_of h) b = cpBodyIsRogue B"
    and "vA (view_of h) b = (\<not> cpBodyIsStatic B \<and> \<not> cpBodyIsRogue B)"
    and "vN (view_of h) b = next (node B)"
    and "vP (view_of h) b = parent (node B)"
    and "vZ (view_of h) b = (idleTime (node B) = 0)"
  using assms by (simp_all add: view_of_def)

text \<open>The hand-over of activations in \<^verbatim>\<open>mergeBodies\<close> (lines 166-169).\<close>

lemma mergeBodies_activate:
  assumes inv: "space_inv w2 rogues"
    and roots: "vP (view_of (bodyH w2)) ra = None" "vP (view_of (bodyH w2)) rb = None"
    and Ra: "bodyH w2 ra = Some Ra" and Rb: "bodyH w2 rb = Some Rb"
    and run: "(if cpBodyIsSleeping Ra \<or> cpBodyIsSleeping Rb
               then do { w' \<leftarrow> componentActivate w2 ra; componentActivate w' rb }
               else Some w2) = Some w3"
  shows "space_inv w3 rogues \<and> sleepTimeThreshold w3 = sleepTimeThreshold w2
         \<and> wake_step (view_of (bodyH w2)) (bodies w2) (view_of (bodyH w3)) (bodies w3)
         \<and> vN (view_of (bodyH w3)) ra = None \<and> vN (view_of (bodyH w3)) rb = None"
proof (cases "cpBodyIsSleeping Ra \<or> cpBodyIsSleeping Rb")
  case False
  then have "w3 = w2" using run by simp
  moreover have "vN (view_of (bodyH w2)) ra = None" "vN (view_of (bodyH w2)) rb = None"
    using False Ra Rb by (simp_all add: cpBodyIsSleeping_def view_of_def)
  ultimately show ?thesis using inv by (simp add: wake_step_refl)
next
  case True
  then obtain wa where wa: "componentActivate w2 ra = Some wa"
    and w3: "componentActivate wa rb = Some w3"
    using run by (auto split: Option.bind_splits)
  from componentActivate_wake[OF inv roots(1) wa]
  have a: "space_inv wa rogues" "sleepTimeThreshold wa = sleepTimeThreshold w2"
    "wake_step (view_of (bodyH w2)) (bodies w2) (view_of (bodyH wa)) (bodies wa)"
    "vN (view_of (bodyH wa)) ra = None" by simp_all
  note sa = wake_stepD[OF a(3)]
  have rb': "vP (view_of (bodyH wa)) rb = None" using sa(4)[OF roots(2)] .
  from componentActivate_wake[OF a(1) rb' w3]
  have b: "space_inv w3 rogues" "sleepTimeThreshold w3 = sleepTimeThreshold wa"
    "wake_step (view_of (bodyH wa)) (bodies wa) (view_of (bodyH w3)) (bodies w3)"
    "vN (view_of (bodyH w3)) rb = None" by simp_all
  note sb = wake_stepD[OF b(3)]
  have "vN (view_of (bodyH w3)) ra = None" using sb(5)[OF a(4)] .
  then show ?thesis using a b wake_step_trans[OF a(3) b(3)] by simp
qed

lemma mergeBodies_unfold:
  assumes run: "mergeBodies w comps rogues a b = Some (w', rogues')"
    and A: "bodyH w a = Some A" and B: "bodyH w b = Some B"
    and nsA: "\<not> cpBodyIsStatic A" and nsB: "\<not> cpBodyIsStatic B"
  shows "\<exists>ra h1 rb h2 Ra Rb w3 A3 w4 rogues4 B4 w5 h6.
      componentNodeRoot (bodyH w) a = Some (ra, h1) \<and>
      componentNodeRoot h1 b = Some (rb, h2) \<and>
      h2 ra = Some Ra \<and> h2 rb = Some Rb \<and>
      (if cpBodyIsSleeping Ra \<or> cpBodyIsSleeping Rb
       then do { wx \<leftarrow> componentActivate (w\<lparr>bodyH := h2\<rparr>) ra; componentActivate wx rb }
       else Some (w\<lparr>bodyH := h2\<rparr>)) = Some w3 \<and>
      bodyH w3 a = Some A3 \<and>
      (if cpBodyIsRogue A3
       then do {
              B' \<leftarrow> bodyH w3 b;
              Some (w3\<lparr>bodyH := (bodyH w3)(b \<mapsto> B'\<lparr>node := (node B')\<lparr>idleTime := 0\<rparr>\<rparr>)\<rparr>,
                    cpArrayPush rogues a)
            }
       else Some (w3, rogues)) = Some (w4, rogues4) \<and>
      bodyH w4 b = Some B4 \<and>
      (if cpBodyIsRogue B4
       then do {
              A' \<leftarrow> bodyH w4 a;
              Some (w4\<lparr>bodyH := (bodyH w4)(a \<mapsto> A'\<lparr>node := (node A')\<lparr>idleTime := 0\<rparr>\<rparr>)\<rparr>,
                    cpArrayPush rogues4 b)
            }
       else Some (w4, rogues4)) = Some (w5, rogues') \<and>
      componentNodeMerge (bodyH w5) ra rb = Some h6 \<and>
      w' = w5\<lparr>bodyH := h6\<rparr>"
proof -
  define Q where "Q = (\<lambda>ra h1 rb h2 Ra Rb w3 A3 w4 rogues4 B4 w5 h6.
      componentNodeRoot (bodyH w) a = Some (ra, h1) \<and>
      componentNodeRoot h1 b = Some (rb, h2) \<and>
      h2 ra = Some Ra \<and> h2 rb = Some Rb \<and>
      (if cpBodyIsSleeping Ra \<or> cpBodyIsSleeping Rb
       then do { wx \<leftarrow> componentActivate (w\<lparr>bodyH := h2\<rparr>) ra; componentActivate wx rb }
       else Some (w\<lparr>bodyH := h2\<rparr>)) = Some w3 \<and>
      bodyH w3 a = Some A3 \<and>
      (if cpBodyIsRogue A3
       then do {
              B' \<leftarrow> bodyH w3 b;
              Some (w3\<lparr>bodyH := (bodyH w3)(b \<mapsto> B'\<lparr>node := (node B')\<lparr>idleTime := 0\<rparr>\<rparr>)\<rparr>,
                    cpArrayPush rogues a)
            }
       else Some (w3, rogues)) = Some (w4, rogues4) \<and>
      bodyH w4 b = Some B4 \<and>
      (if cpBodyIsRogue B4
       then do {
              A' \<leftarrow> bodyH w4 a;
              Some (w4\<lparr>bodyH := (bodyH w4)(a \<mapsto> A'\<lparr>node := (node A')\<lparr>idleTime := 0\<rparr>\<rparr>)\<rparr>,
                    cpArrayPush rogues4 b)
            }
       else Some (w4, rogues4)) = Some (w5, rogues') \<and>
      componentNodeMerge (bodyH w5) ra rb = Some h6 \<and>
      w' = w5\<lparr>bodyH := h6\<rparr>)"
  have "\<exists>ra h1 rb h2 Ra Rb w3 A3 w4 rogues4 B4 w5 h6.
          Q ra h1 rb h2 Ra Rb w3 A3 w4 rogues4 B4 w5 h6"
    using run A B nsA nsB
    unfolding mergeBodies_def Let_def
    apply (clarsimp simp add: bind_eq_Some_conv simp del: fun_upd_apply split: prod.split_asm)
    apply (unfold Q_def)
    apply (intro exI conjI)
    apply assumption+
    done
  then show ?thesis unfolding Q_def .
qed

lemma zero_if_simps:
  "vP (zero_if c x v) = vP v" "vN (zero_if c x v) = vN v" "vR (zero_if c x v) = vR v" "vA (zero_if c x v) = vA v"
  "vZ v y \<Longrightarrow> vZ (zero_if c x v) y" "c \<Longrightarrow> vZ (zero_if c x v) x"
  by (simp_all add: zero_if_def)

lemma forest_inv_zero_if: "forest_inv v bs rogues \<Longrightarrow> forest_inv (zero_if c x v) bs rogues"
  unfolding zero_if_def using forest_inv_zero by simp

lemma merge_core:
  assumes inv2: "forest_inv v2 bs2 rogues"
    and ra: "rootOf (vP v2) a ra" and rb: "rootOf (vP v2) b rb"
    and ws: "wake_step v2 bs2 v3 bs3" and inv3: "forest_inv v3 bs3 rogues"
    and n3: "vN v3 ra = None" "vN v3 rb = None"
    and fa: "vR v2 a \<or> vA v2 a" and fb: "vR v2 b \<or> vA v2 b"
    and v5: "v5 = zero_if (vR v3 b) a (zero_if (vR v3 a) b v3)"
    and rogues5: "rogues5 = rogues @ (if vR v3 a then [a] else []) @ (if vR v3 b then [b] else [])"
    and v': "(ra = rb \<and> v' = v5)
             \<or> (ra \<noteq> rb \<and> v' = v5\<lparr>vP := (vP v5)(ra := Some rb)\<rparr>)
             \<or> (ra \<noteq> rb \<and> v' = v5\<lparr>vP := (vP v5)(rb := Some ra)\<rparr>)"
  shows "forest_inv v' bs3 rogues5"
proof -
  note d = wake_stepD[OF ws]
  have p2: "vP v2 ra = None" "vP v2 rb = None" using ra rb rootOf_root by blast+
  have p3: "vP v3 ra = None" "vP v3 rb = None" using d(4) p2 by blast+
  have f5: "vP v5 = vP v3" "vN v5 = vN v3" "vR v5 = vR v3" "vA v5 = vA v3"
    unfolding v5 by (simp_all add: zero_if_simps)
  have z5: "vZ v5 y" if "vZ v3 y" for y unfolding v5 using that by (simp add: zero_if_simps)
  have za: "vZ v5 a" if "vR v3 b" unfolding v5 using that by (simp add: zero_if_simps)
  have zb: "vZ v5 b" if "vR v3 a" unfolding v5 using that by (simp add: zero_if_def)
  have inv5: "forest_inv v5 bs3 rogues" unfolding v5 by (intro forest_inv_zero_if inv3)
  from inv2 have B2: "awake_rooted v2" and C2: "asleep_ringed v2" and E2: "rogues_listed v2 rogues" and H2: "rogues_awake v2"
    unfolding forest_inv_def by simp_all
  from inv3 have I3: "active_listed v3 bs3" unfolding forest_inv_def by simp
  have sub: "set rogues \<subseteq> set rogues5" unfolding rogues5 by auto
  have mem: "x \<in> set bs3 \<union> set rogues5" if "vR v2 x \<or> vA v2 x" "vN v3 x = None" "x = a \<or> x = b" for x
  proof (cases "vR v3 x")
    case True
    then show ?thesis using that(3) unfolding rogues5 by auto
  next
    case False
    then have "vA v3 x" using that(1) d(1,2) by simp
    then show ?thesis using I3 that(2) unfolding active_listed_def by blast
  qed
  text \<open>A rogue end of the pair, and the cover that the other end provides.\<close>
  have cover: "vN v5 x = None \<and> rootOf (vP v5) x rx
               \<and> (\<exists>c \<in> set bs3 \<union> set rogues5. vN v5 c = None \<and> vZ v5 c \<and> rootOf (vP v5) c ry)"
    if x: "vR v3 x" "rootOf (vP v2) x rx" and y: "rootOf (vP v2) y ry" "vR v2 y \<or> vA v2 y"
      "vR v3 x \<Longrightarrow> vZ v5 y" "y = a \<or> y = b" "vN v3 ry = None"
    for x y rx ry
  proof -
    have "vR v2 x" using x(1) d(1) by simp
    then have nx: "vN v2 x = None" using H2 unfolding rogues_awake_def by blast
    have x3: "vN v5 x = None" "rootOf (vP v5) x rx" using d(5)[OF nx] d(7)[OF nx x(2)] f5 by simp_all
    have "\<exists>c \<in> set bs3 \<union> set rogues5. vN v5 c = None \<and> vZ v5 c \<and> rootOf (vP v5) c ry"
    proof (cases "vN v2 y = None")
      case True
      have "vN v3 y = None" "rootOf (vP v3) y ry" using d(5)[OF True] d(7)[OF True y(1)] by simp_all
      moreover have "y \<in> set bs3 \<union> set rogues5" using mem[OF y(2) calculation(1) y(4)] .
      ultimately show ?thesis using y(3)[OF x(1)] f5 by auto
    next
      case False
      have "vN v2 ry \<noteq> None" by (rule inv_asleep_root_asleep[OF C2 False y(1)])
      from d(8)[OF this y(5)] have "vZ v3 ry" "ry \<in> set bs3" by simp_all
      moreover have "rootOf (vP v5) ry ry"
        using rootOf_self[of "vP v5" ry] d(4)[OF rootOf_root[OF y(1)]] f5 by simp
      ultimately show ?thesis using z5 y(5) f5 by auto
    qed
    then show ?thesis using x3 by simp
  qed
  have new: "\<forall>R \<in> set rogues5 - set rogues.
                vN v5 R = None \<and> (rootOf (vP v5) R ra \<or> rootOf (vP v5) R rb)
                \<and> (\<exists>x \<in> set bs3 \<union> set rogues5. vN v5 x = None \<and> vZ v5 x
                       \<and> (rootOf (vP v5) x ra \<or> rootOf (vP v5) x rb))"
  proof
    fix R assume "R \<in> set rogues5 - set rogues"
    then consider (a) "R = a" "vR v3 a" | (b) "R = b" "vR v3 b"
      unfolding rogues5 by (auto split: if_splits)
    then show "vN v5 R = None \<and> (rootOf (vP v5) R ra \<or> rootOf (vP v5) R rb)
                \<and> (\<exists>x \<in> set bs3 \<union> set rogues5. vN v5 x = None \<and> vZ v5 x
                       \<and> (rootOf (vP v5) x ra \<or> rootOf (vP v5) x rb))"
    proof cases
      case a
      from cover[OF a(2) ra rb fb zb _ n3(2)] show ?thesis using a(1) by auto
    next
      case b
      from cover[OF b(2) rb ra fa za _ n3(1)] show ?thesis using b(1) by auto
    qed
  qed
  have e: "vR v5 r \<longrightarrow> r \<in> set rogues5" if "rootOf (vP v2) x r" "x = a \<or> x = b" for x r
  proof (cases "x = r")
    case True
    then show ?thesis using that(2) f5 unfolding rogues5 by auto
  next
    case False
    from rootOf_child[OF that(1) False] obtain y where "vP v2 y = Some r" by blast
    then have "vR v2 r \<longrightarrow> r \<in> set rogues" using E2 unfolding rogues_listed_def by blast
    then show ?thesis using sub d(1) f5 by auto
  qed
  show ?thesis
    by (rule tail_forest_inv[OF inv5 _ _ _ _ v' sub new e[OF ra] e[OF rb]])
       (use p3 n3 f5 in simp_all)
qed

lemma zero_step:
  assumes "(if c then do {
                B' \<leftarrow> bodyH w b;
                Some (w\<lparr>bodyH := (bodyH w)(b \<mapsto> B'\<lparr>node := (node B')\<lparr>idleTime := 0\<rparr>\<rparr>)\<rparr>,
                      cpArrayPush rs a)
              }
            else Some (w, rs)) = Some (w', rs')"
  shows "rs' = rs @ (if c then [a] else [])"
    and "bodies w' = bodies w" and "locked w' = locked w"
    and "sleepTimeThreshold w' = sleepTimeThreshold w"
    and "view_of (bodyH w') = zero_if c b (view_of (bodyH w))"
proof -
  show "rs' = rs @ (if c then [a] else [])" "bodies w' = bodies w" "locked w' = locked w"
    "sleepTimeThreshold w' = sleepTimeThreshold w"
    using assms by (auto simp: cpArrayPush_def split: if_splits Option.bind_splits)
  show "view_of (bodyH w') = zero_if c b (view_of (bodyH w))"
  proof (cases c)
    case False
    then show ?thesis using assms by (simp add: zero_if_def)
  next
    case True
    then obtain B' where B': "bodyH w b = Some B'"
      and w': "w' = w\<lparr>bodyH := (bodyH w)(b \<mapsto> B'\<lparr>node := (node B')\<lparr>idleTime := 0\<rparr>\<rparr>)\<rparr>"
      using assms by (auto split: Option.bind_splits)
    show ?thesis using view_of_upd_idle[of "bodyH w" b B', OF B'] True w' by (simp add: zero_if_def)
  qed
qed

lemma mergeBodies_space_inv:
  assumes inv: "space_inv w rogues" and run: "mergeBodies w comps rogues a b = Some (w', rogues')"
  shows "space_inv w' rogues' \<and> sleepTimeThreshold w' = sleepTimeThreshold w"
proof -
  from run obtain A where A: "bodyH w a = Some A"
    by (auto simp: mergeBodies_def split: Option.bind_splits)
  show ?thesis
  proof (cases "cpBodyIsStatic A")
    case True
    then show ?thesis using run A inv by (simp add: mergeBodies_def)
  next
    case nsA: False
    from run A nsA obtain B where B: "bodyH w b = Some B"
      by (auto simp: mergeBodies_def split: Option.bind_splits)
    show ?thesis
    proof (cases "cpBodyIsStatic B")
      case True
      then show ?thesis using run A B nsA inv by (simp add: mergeBodies_def)
    next
      case nsB: False
      from mergeBodies_unfold[OF run A B nsA nsB]
      obtain ra h1 rb h2 Ra Rb w3 A3 w4 rogues4 B4 w5 h6 where
        fa: "componentNodeRoot (bodyH w) a = Some (ra, h1)" and
        fb: "componentNodeRoot h1 b = Some (rb, h2)" and
        Ra: "h2 ra = Some Ra" and Rb: "h2 rb = Some Rb" and
        act: "(if cpBodyIsSleeping Ra \<or> cpBodyIsSleeping Rb
               then do { wx \<leftarrow> componentActivate (w\<lparr>bodyH := h2\<rparr>) ra; componentActivate wx rb }
               else Some (w\<lparr>bodyH := h2\<rparr>)) = Some w3" and
        A3: "bodyH w3 a = Some A3" and
        s4: "(if cpBodyIsRogue A3
              then do {
                     B' \<leftarrow> bodyH w3 b;
                     Some (w3\<lparr>bodyH := (bodyH w3)(b \<mapsto> B'\<lparr>node := (node B')\<lparr>idleTime := 0\<rparr>\<rparr>)\<rparr>,
                           cpArrayPush rogues a)
                   }
              else Some (w3, rogues)) = Some (w4, rogues4)" and
        B4: "bodyH w4 b = Some B4" and
        s5: "(if cpBodyIsRogue B4
              then do {
                     A' \<leftarrow> bodyH w4 a;
                     Some (w4\<lparr>bodyH := (bodyH w4)(a \<mapsto> A'\<lparr>node := (node A')\<lparr>idleTime := 0\<rparr>\<rparr>)\<rparr>,
                           cpArrayPush rogues4 b)
                   }
              else Some (w4, rogues4)) = Some (w5, rogues')" and
        mg: "componentNodeMerge (bodyH w5) ra rb = Some h6" and
        w': "w' = w5\<lparr>bodyH := h6\<rparr>"
        by blast
      let ?v0 = "view_of (bodyH w)"
      let ?v1 = "view_of h1"
      let ?v2 = "view_of h2"
      let ?v3 = "view_of (bodyH w3)"
      let ?v4 = "view_of (bodyH w4)"
      let ?v5 = "view_of (bodyH w5)"
      from inv have inv0: "forest_inv ?v0 (bodies w) rogues" and nl: "\<not> locked w"
        unfolding space_inv_def by simp_all
      from componentNodeRoot_view[OF fa] obtain xsa where
        cha: "pchain (vP ?v0) a xsa ra" and v1: "?v1 = ?v0\<lparr>vP := compressP (vP ?v0) xsa ra\<rparr>"
        by auto
      from componentNodeRoot_view[OF fb] obtain xsb where
        chb: "pchain (vP ?v1) b xsb rb" and v2: "?v2 = ?v1\<lparr>vP := compressP (vP ?v1) xsb rb\<rparr>"
        by auto
      have inv1: "forest_inv ?v1 (bodies w) rogues" using forest_inv_compress[OF inv0 cha] v1 by simp
      have inv2: "forest_inv ?v2 (bodies w) rogues" using forest_inv_compress[OF inv1 chb] v2 by simp
      have "rootOf (vP ?v0) a ra" using cha unfolding rootOf_def by blast
      from compressP_rootOf[OF cha this] have "rootOf (vP ?v1) a ra" using v1 by simp
      from compressP_rootOf[OF chb this] have ra2: "rootOf (vP ?v2) a ra" using v2 by simp
      have "rootOf (vP ?v1) b rb" using chb unfolding rootOf_def by blast
      from compressP_rootOf[OF chb this] have rb2: "rootOf (vP ?v2) b rb" using v2 by simp
      have fl: "vR ?v2 = vR ?v0" "vA ?v2 = vA ?v0" using v1 v2 by simp_all
      have fa2: "vR ?v2 a \<or> vA ?v2 a" using A nsA fl by (simp add: view_of_def)
      have fb2: "vR ?v2 b \<or> vA ?v2 b" using B nsB fl by (simp add: view_of_def)
      have W2: "space_inv (w\<lparr>bodyH := h2\<rparr>) rogues" using inv2 nl unfolding space_inv_def by simp
      have p2: "vP (view_of (bodyH (w\<lparr>bodyH := h2\<rparr>))) ra = None"
        "vP (view_of (bodyH (w\<lparr>bodyH := h2\<rparr>))) rb = None"
        using rootOf_root[OF ra2] rootOf_root[OF rb2] by simp_all
      have Ra': "bodyH (w\<lparr>bodyH := h2\<rparr>) ra = Some Ra" and Rb': "bodyH (w\<lparr>bodyH := h2\<rparr>) rb = Some Rb"
        using Ra Rb by simp_all
      from mergeBodies_activate[OF W2 p2 Ra' Rb' act]
      have W3: "space_inv w3 rogues" and t3: "sleepTimeThreshold w3 = sleepTimeThreshold w"
        and ws: "wake_step ?v2 (bodies w) ?v3 (bodies w3)"
        and n3: "vN ?v3 ra = None" "vN ?v3 rb = None" by simp_all
      from W3 have inv3: "forest_inv ?v3 (bodies w3) rogues" and nl3: "\<not> locked w3"
        unfolding space_inv_def by simp_all
      note z4 = zero_step[OF s4]
      note z5 = zero_step[OF s5]
      have rA: "cpBodyIsRogue A3 = vR ?v3 a" using A3 by (simp add: view_of_def)
      have "cpBodyIsRogue B4 = vR ?v4 b" using B4 by (simp add: view_of_def)
      then have rB: "cpBodyIsRogue B4 = vR ?v3 b" unfolding z4(5) by (simp add: zero_if_simps)
      have v5: "?v5 = zero_if (vR ?v3 b) a (zero_if (vR ?v3 a) b ?v3)" using z4(5) z5(5) rA rB by simp
      have r5: "rogues' = rogues @ (if vR ?v3 a then [a] else []) @ (if vR ?v3 b then [b] else [])"
        using z4(1) z5(1) rA rB by simp
      from componentNodeMerge_view[OF mg]
      have lk: "(ra = rb \<and> view_of h6 = ?v5)
             \<or> (ra \<noteq> rb \<and> view_of h6 = ?v5\<lparr>vP := (vP ?v5)(ra := Some rb)\<rparr>)
             \<or> (ra \<noteq> rb \<and> view_of h6 = ?v5\<lparr>vP := (vP ?v5)(rb := Some ra)\<rparr>)" by blast
      from merge_core[OF inv2 ra2 rb2 ws inv3 n3 fa2 fb2 v5 r5 lk]
      have "forest_inv (view_of h6) (bodies w3) rogues'" .
      then show ?thesis using w' z4(2,3,4) z5(2,3,4) nl3 t3 unfolding space_inv_def by simp
    qed
  qed
qed

lemma forest_inv_no_rogues_cong:
  assumes "forest_inv v bs []" and "vP v' = vP v" "vN v' = vN v" "vR v' = vR v" "vA v' = vA v"
  shows "forest_inv v' bs []"
  using assms unfolding forest_inv_def awake_rooted_def asleep_ringed_def rogues_covered_def rogues_listed_def bodies_bound_def rogues_awake_def active_listed_def
  by simp

lemma updateIdle_space_inv:
  assumes inv: "space_inv w []" and run: "updateIdle w dvsq dt body = Some w1"
  shows "space_inv w1 [] \<and> sleepTimeThreshold w1 = sleepTimeThreshold w \<and> bodies w1 = bodies w
         \<and> arbiters w1 = arbiters w"
proof -
  from run obtain B where B: "bodyH w body = Some B"
    by (auto simp: updateIdle_def split: Option.bind_splits)
  let ?B1 = "B\<lparr>node := (node B)\<lparr>idleTime :=
                 (if kinetic B > (if dvsq \<noteq> 0 then mass B * dvsq else 0) then 0
                  else idleTime (node B) + dt)\<rparr>, arbiterList := None\<rparr>"
  have w1: "w1 = w\<lparr>bodyH := (bodyH w)(body \<mapsto> ?B1)\<rparr>"
    using run B by (simp add: updateIdle_def Let_def)
  have "vP (view_of (bodyH w1)) = vP (view_of (bodyH w))"
    "vN (view_of (bodyH w1)) = vN (view_of (bodyH w))"
    "vR (view_of (bodyH w1)) = vR (view_of (bodyH w))"
    "vA (view_of (bodyH w1)) = vA (view_of (bodyH w))"
    using B unfolding w1
    by (auto simp: view_of_def fun_eq_iff cpBodyIsRogue_def cpBodyIsStatic_def)
  from forest_inv_no_rogues_cong[OF _ this] inv show ?thesis unfolding space_inv_def w1 by simp
qed

lemma updateIdleAll_space_inv:
  assumes "space_inv w []" and "updateIdleAll w dvsq dt bs = Some w1"
  shows "space_inv w1 [] \<and> sleepTimeThreshold w1 = sleepTimeThreshold w \<and> bodies w1 = bodies w"
  using assms
proof (induction bs arbitrary: w)
  case Nil
  then show ?case by simp
next
  case (Cons b bs)
  from Cons.prems(2) obtain wm where s: "updateIdle w dvsq dt b = Some wm"
    and r: "updateIdleAll wm dvsq dt bs = Some w1" by (auto split: Option.bind_splits)
  from updateIdle_space_inv[OF Cons.prems(1) s] Cons.IH[OF _ r] show ?case by simp
qed

lemma cpBodyPushArbiter_view:
  assumes "cpBodyPushArbiter w body arb = Some w'"
  shows "view_of (bodyH w') = view_of (bodyH w) \<and> bodies w' = bodies w \<and> locked w' = locked w
         \<and> sleepTimeThreshold w' = sleepTimeThreshold w"
proof -
  from assms obtain B where B: "bodyH w body = Some B"
    by (auto simp: cpBodyPushArbiter_def split: Option.bind_splits)
  show ?thesis
  proof (cases "\<not> cpBodyIsStatic B \<and> \<not> cpBodyIsRogue B")
    case False
    then show ?thesis using assms B by (auto simp: cpBodyPushArbiter_def)
  next
    case True
    then obtain A where w': "w' = w\<lparr>arbH := (arbH w)(arb \<mapsto> A\<lparr>nextA := arbiterList B\<rparr>),
                                  bodyH := (bodyH w)(body \<mapsto> B\<lparr>arbiterList := Some arb\<rparr>)\<rparr>"
      using assms B by (auto simp: cpBodyPushArbiter_def Let_def split: Option.bind_splits)
    have "view_of ((bodyH w)(body \<mapsto> B\<lparr>arbiterList := Some arb\<rparr>)) = view_of (bodyH w)"
      using B by (auto simp: view_of_def fun_eq_iff cpBodyIsRogue_def cpBodyIsStatic_def)
    then show ?thesis unfolding w' by simp
  qed
qed

lemma cpBodyPushArbiter_space_inv:
  assumes "space_inv w rogues" and "cpBodyPushArbiter w body arb = Some w'"
  shows "space_inv w' rogues \<and> sleepTimeThreshold w' = sleepTimeThreshold w"
  using cpBodyPushArbiter_view[OF assms(2)] assms(1) unfolding space_inv_def by simp

lemma mergeArbiter_space_inv:
  assumes inv: "space_inv w rogues" and run: "mergeArbiter w comps rogues arb = Some (w', rogues')"
  shows "space_inv w' rogues' \<and> sleepTimeThreshold w' = sleepTimeThreshold w"
proof -
  from run obtain a b w1 a1 w2 b2 where
    m: "mergeBodies w comps rogues a b = Some (w1, rogues')" and
    p1: "cpBodyPushArbiter w1 a1 arb = Some w2" and
    p2: "cpBodyPushArbiter w2 b2 arb = Some w'"
    unfolding mergeArbiter_def
    by (auto simp add: bind_eq_Some_conv split: prod.split_asm)
  from mergeBodies_space_inv[OF inv m] have 1: "space_inv w1 rogues'"
    "sleepTimeThreshold w1 = sleepTimeThreshold w" by simp_all
  from cpBodyPushArbiter_space_inv[OF 1(1) p1] have 2: "space_inv w2 rogues'"
    "sleepTimeThreshold w2 = sleepTimeThreshold w1" by simp_all
  from cpBodyPushArbiter_space_inv[OF 2(1) p2] 1 2 show ?thesis by simp
qed

lemma mergeArbiters_space_inv:
  assumes "space_inv w rogues" and "mergeArbiters w comps rogues arbs = Some (w', rogues')"
  shows "space_inv w' rogues' \<and> sleepTimeThreshold w' = sleepTimeThreshold w"
  using assms
proof (induction arbs arbitrary: w rogues)
  case Nil
  then show ?case by simp
next
  case (Cons arb arbs)
  from Cons.prems(2) obtain wm rm where s: "mergeArbiter w comps rogues arb = Some (wm, rm)"
    and r: "mergeArbiters wm comps rm arbs = Some (w', rogues')"
    by (auto simp add: bind_eq_Some_conv split: prod.split_asm)
  from mergeArbiter_space_inv[OF Cons.prems(1) s] Cons.IH[OF _ r] show ?case by simp
qed

lemma mergeConstraints_space_inv:
  assumes "mergeConstraints w comps rogues j = Some res" and "space_inv w rogues"
  shows "space_inv (fst res) (snd res) \<and> sleepTimeThreshold (fst res) = sleepTimeThreshold w"
  using assms
proof (induct rule: mergeConstraints.raw_induct[rotated, consumes 1, case_names step])
  case (step self w comps rogues j res)
  show ?case
  proof (cases "j < length (constraints w)")
    case False
    then show ?thesis using step(2,3) by auto
  next
    case True
    then have "\<exists>(C::cpConstraint) wm rm. mergeBodies w comps rogues (con_a C) (con_b C) = Some (wm, rm)
                \<and> self wm comps rm (Suc j) = Some res"
      using step(2) by (simp add: bind_eq_Some_conv split: prod.split_asm) blast
    then obtain C :: cpConstraint and wm rm where
      m: "mergeBodies w comps rogues (con_a C) (con_b C) = Some (wm, rm)" and
      r: "self wm comps rm (Suc j) = Some res" by blast
    from mergeBodies_space_inv[OF step(3) m] step(1)[OF r] show ?thesis by simp
  qed
qed

subsection \<open>Building rings\<close>

lemma ringPath_root_notin_tl: "ringPath N b xs r \<Longrightarrow> r \<notin> set (tl xs)"
proof (induction xs arbitrary: b)
  case Nil
  then show ?case by simp
next
  case (Cons x xs)
  from Cons.prems obtain n where n: "N b = Some n" "x = b" by (auto split: option.splits)
  show ?case
  proof (cases "n = r")
    case True
    then show ?thesis using Cons.prems n by simp
  next
    case False
    then have rp: "ringPath N n xs r" using Cons.prems n by simp
    then obtain ys where "xs = n # ys" by (cases xs) auto
    then show ?thesis using Cons.IH[OF rp] False by auto
  qed
qed

lemma ring_new:
  assumes "N' = (N(body := Some c))(c := Some body)"
  shows "ringPath N' c (if body = c then [c] else [c, body]) c"
  using assms by auto

lemma ring_insert:
  assumes ring: "ringPath N c (c # rest) c" and nc: "N c = Some nxt" and nb: "N body = None"
    and N': "N' = (N(body := Some nxt))(c := Some body)"
  shows "ringPath N' c (c # body # rest) c"
proof -
  have bc: "body \<noteq> c" using nc nb by auto
  have tail: "if nxt = c then rest = [] else ringPath N nxt rest c" using ring nc by simp
  have "ringPath N' body (body # rest) c"
  proof (cases "nxt = c")
    case True
    then show ?thesis using tail N' bc by simp
  next
    case False
    then have rp: "ringPath N nxt rest c" using tail by simp
    have "c \<notin> set rest" using ringPath_root_notin_tl[OF ring] by simp
    moreover have "body \<notin> set rest" using ringPath_asleep[OF rp] nb by blast
    ultimately have "\<forall>m \<in> set rest. N' m = N m" unfolding N' by auto
    from ringPath_cong[OF rp this] have "ringPath N' nxt rest c" .
    moreover have "N' body = Some nxt" unfolding N' using bc by simp
    ultimately show ?thesis using False by simp
  qed
  moreover have "N' c = Some body" unfolding N' by simp
  ultimately show ?thesis using bc by simp
qed

lemma assembly_invD:
  assumes "assembly_inv v0 v comps D"
  shows "vR v = vR v0" and "vZ v = vZ v0"
    and "\<And>x r. rootOf (vP v0) x r \<Longrightarrow> rootOf (vP v) x r"
    and "\<And>x. vN v x = None \<Longrightarrow> vN v0 x = None"
    and "distinct comps"
    and "\<And>c. c \<in> set comps \<Longrightarrow>
           \<exists>ms. ringPath (vN v) c ms c \<and> (\<forall>m \<in> set ms. ringMember v0 v D c m)"
    and "\<And>x. vN v0 x = None \<Longrightarrow> vN v x \<noteq> None \<Longrightarrow>
           \<exists>c \<in> set comps. \<exists>ms. ringPath (vN v) c ms c \<and> x \<in> set ms"
    and "\<And>x. x \<in> D \<Longrightarrow> vN v0 x = None \<Longrightarrow> vN v x \<noteq> None"
  using assms unfolding assembly_inv_def by blast+

lemma assembly_invI:
  assumes "vR v = vR v0" and "vZ v = vZ v0"
    and "\<And>x r. rootOf (vP v0) x r \<Longrightarrow> rootOf (vP v) x r"
    and "\<And>x. vN v x = None \<Longrightarrow> vN v0 x = None"
    and "distinct comps"
    and "\<And>c. c \<in> set comps \<Longrightarrow>
           \<exists>ms. ringPath (vN v) c ms c \<and> (\<forall>m \<in> set ms. ringMember v0 v D c m)"
    and "\<And>x. vN v0 x = None \<Longrightarrow> vN v x \<noteq> None \<Longrightarrow>
           \<exists>c \<in> set comps. \<exists>ms. ringPath (vN v) c ms c \<and> x \<in> set ms"
    and "\<And>x. x \<in> D \<Longrightarrow> vN v0 x = None \<Longrightarrow> vN v x \<noteq> None"
  shows "assembly_inv v0 v comps D"
  unfolding assembly_inv_def
proof (intro conjI)
  show "\<forall>x. vN v0 x \<noteq> None \<longrightarrow> vN v x \<noteq> None"
  proof (intro allI impI)
    fix x assume "vN v0 x \<noteq> None"
    then show "vN v x \<noteq> None" using assms(4)[of x] by (cases "vN v x") simp_all
  qed
  show "\<forall>c \<in> set comps. \<exists>ms. ringPath (vN v) c ms c \<and> (\<forall>m \<in> set ms. ringMember v0 v D c m)"
  proof
    fix c assume "c \<in> set comps"
    then show "\<exists>ms. ringPath (vN v) c ms c \<and> (\<forall>m \<in> set ms. ringMember v0 v D c m)"
      by (rule assms(6))
  qed
  show "\<forall>x. vN v0 x = None \<and> vN v x \<noteq> None \<longrightarrow>
             (\<exists>c \<in> set comps. \<exists>ms. ringPath (vN v) c ms c \<and> x \<in> set ms)"
  proof (intro allI impI, elim conjE)
    fix x assume "vN v0 x = None" "vN v x \<noteq> None"
    then show "\<exists>c \<in> set comps. \<exists>ms. ringPath (vN v) c ms c \<and> x \<in> set ms"
      by (rule assms(7))
  qed
  show "\<forall>x \<in> D. vN v0 x = None \<longrightarrow> vN v x \<noteq> None"
  proof (intro ballI impI)
    fix x assume "x \<in> D" "vN v0 x = None"
    then show "vN v x \<noteq> None" by (rule assms(8))
  qed
  show "vR v = vR v0" "vZ v = vZ v0" "distinct comps" by (rule assms)+
  show "\<forall>x r. rootOf (vP v0) x r \<longrightarrow> rootOf (vP v) x r"
  proof (intro allI impI)
    fix x r assume "rootOf (vP v0) x r"
    then show "rootOf (vP v) x r" by (rule assms(3))
  qed
qed

lemma assembly_inv_init: "assembly_inv v v [] {}"
  by (rule assembly_invI) auto

lemma assembly_inv_ring_of:
  assumes j: "assembly_inv v0 v comps D" and x: "vN v0 x = None" "vN v x \<noteq> None" and r: "rootOf (vP v) x r"
  shows "r \<in> set comps \<and> (\<exists>ms. ringPath (vN v) r ms r \<and> x \<in> set ms
                                \<and> (\<forall>m \<in> set ms. ringMember v0 v D r m))"
proof -
  from assembly_invD(7)[OF j x] obtain c ms where c: "c \<in> set comps" "ringPath (vN v) c ms c" "x \<in> set ms"
    by blast
  from assembly_invD(6)[OF j c(1)] obtain ms' where ms': "ringPath (vN v) c ms' c"
    "\<forall>m \<in> set ms'. ringMember v0 v D c m" by blast
  have eq: "ms' = ms" using ringPath_unique[OF ms'(1) c(2)] .
  then have "rootOf (vP v) x c" using ms'(2) c(3) unfolding ringMember_def by blast
  then have "c = r" using r rootOf_unique by blast
  then show ?thesis using c ms' eq by blast
qed

lemma assembly_inv_skip:
  assumes j: "assembly_inv v0 v comps D" and b: "vN v body \<noteq> None"
  shows "assembly_inv v0 v comps (insert body D)"
proof (rule assembly_invI)
  note d = assembly_invD[OF j]
  show "vR v = vR v0" "vZ v = vZ v0" "distinct comps" by (rule d)+
  show "\<And>x r. rootOf (vP v0) x r \<Longrightarrow> rootOf (vP v) x r" by (rule d(3))
  show "\<And>x. vN v x = None \<Longrightarrow> vN v0 x = None" by (rule d(4))
  show "\<exists>ms. ringPath (vN v) c ms c \<and> (\<forall>m \<in> set ms. ringMember v0 v (insert body D) c m)"
    if "c \<in> set comps" for c
  proof -
    from d(6)[OF that] obtain ms where ms: "ringPath (vN v) c ms c"
      "\<forall>m \<in> set ms. ringMember v0 v D c m" by blast
    have "\<forall>m \<in> set ms. ringMember v0 v (insert body D) c m"
      using ms(2) unfolding ringMember_def by simp
    then show ?thesis using ms(1) by blast
  qed
  show "\<And>x. vN v0 x = None \<Longrightarrow> vN v x \<noteq> None \<Longrightarrow>
           \<exists>c \<in> set comps. \<exists>ms. ringPath (vN v) c ms c \<and> x \<in> set ms" by (rule d(7))
  show "vN v x \<noteq> None" if "x \<in> insert body D" "vN v0 x = None" for x
  proof (cases "x = body")
    case True
    then show ?thesis using b by simp
  next
    case False
    then show ?thesis using d(8)[of x] that by simp
  qed
qed

lemma assembly_inv_compress:
  assumes j: "assembly_inv v0 v comps D" and ch: "pchain (vP v) b xs r"
  shows "assembly_inv v0 (v\<lparr>vP := compressP (vP v) xs r\<rparr>) comps D"
proof (rule assembly_invI)
  note d = assembly_invD[OF j]
  let ?v = "v\<lparr>vP := compressP (vP v) xs r\<rparr>"
  have r: "rootOf (vP ?v) x rx" if "rootOf (vP v) x rx" for x rx
    using compressP_rootOf[OF ch that] by simp
  show "vR ?v = vR v0" "vZ ?v = vZ v0" "distinct comps" using d(1,2,5) by simp_all
  show "rootOf (vP ?v) x rx" if "rootOf (vP v0) x rx" for x rx
    using r[OF d(3)[OF that]] .
  show "\<And>x. vN ?v x = None \<Longrightarrow> vN v0 x = None" using d(4) by simp
  show "\<exists>ms. ringPath (vN ?v) c ms c \<and> (\<forall>m \<in> set ms. ringMember v0 ?v D c m)"
    if "c \<in> set comps" for c
  proof -
    from d(6)[OF that] obtain ms where ms: "ringPath (vN v) c ms c"
      "\<forall>m \<in> set ms. ringMember v0 v D c m" by blast
    have "\<forall>m \<in> set ms. ringMember v0 ?v D c m"
      using ms(2) r unfolding ringMember_def by simp
    then show ?thesis using ms(1) by auto
  qed
  show "\<And>x. vN v0 x = None \<Longrightarrow> vN ?v x \<noteq> None \<Longrightarrow>
         \<exists>c \<in> set comps. \<exists>ms. ringPath (vN ?v) c ms c \<and> x \<in> set ms"
    using d(7) by simp
  show "\<And>x. x \<in> D \<Longrightarrow> vN v0 x = None \<Longrightarrow> vN ?v x \<noteq> None" using d(8) by simp
qed

lemma assembly_inv_root_awake:
  assumes j: "assembly_inv v0 v comps D" and B0: "awake_rooted v0" and nb: "vN v body = None"
    and r: "rootOf (vP v) body croot"
  shows "vN v0 body = None" and "vN v0 croot = None" and "rootOf (vP v0) body croot"
proof -
  note d = assembly_invD[OF j]
  show b0: "vN v0 body = None" by (rule d(4)[OF nb])
  from B0 b0 obtain r0 where r0: "rootOf (vP v0) body r0" "vN v0 r0 = None"
    unfolding awake_rooted_def by blast
  have "r0 = croot" using rootOf_unique[OF d(3)[OF r0(1)] r] .
  then show "vN v0 croot = None" "rootOf (vP v0) body croot" using r0 by simp_all
qed

lemma assembly_inv_newring:
  assumes j: "assembly_inv v0 v comps D" and B0: "awake_rooted v0"
    and nb: "vN v body = None" and nc: "vN v croot = None"
    and r: "rootOf (vP v) body croot"
    and v': "v' = v\<lparr>vN := ((vN v)(body := Some croot))(croot := Some body)\<rparr>"
  shows "assembly_inv v0 v' (comps @ [croot]) (insert body D)"
proof (rule assembly_invI)
  note d = assembly_invD[OF j]
  note a = assembly_inv_root_awake[OF j B0 nb r]
  let ?ms = "if body = croot then [croot] else [croot, body]"
  have N': "vN v' = ((vN v)(body := Some croot))(croot := Some body)" using v' by simp
  have P': "vP v' = vP v" using v' by simp
  have new: "ringPath (vN v') croot ?ms croot" using ring_new[OF N'] .
  have keep: "ringPath (vN v') c ms c" if "ringPath (vN v) c ms c" for c ms
  proof -
    have "body \<notin> set ms" "croot \<notin> set ms"
      using ringPath_asleep[OF that, of body] ringPath_asleep[OF that, of croot] nb nc by blast+
    then have "\<forall>m \<in> set ms. vN v' m = vN v m" unfolding N' by auto
    from ringPath_cong[OF that this] show ?thesis .
  qed
  have notin: "croot \<notin> set comps"
  proof
    assume "croot \<in> set comps"
    from d(6)[OF this] obtain ms where "ringPath (vN v) croot ms croot" by blast
    from ringPath_asleep[OF this ringPath_hd[OF this]] nc show False by simp
  qed
  show "vR v' = vR v0" "vZ v' = vZ v0" using d(1,2) v' by simp_all
  show "\<And>x r. rootOf (vP v0) x r \<Longrightarrow> rootOf (vP v') x r" using d(3) P' by simp
  show "vN v0 x = None" if "vN v' x = None" for x
    using that d(4)[of x] unfolding N' by (auto split: if_splits)
  show "distinct (comps @ [croot])" using d(5) notin by simp
  show "\<exists>ms. ringPath (vN v') c ms c \<and> (\<forall>m \<in> set ms. ringMember v0 v' (insert body D) c m)"
    if "c \<in> set (comps @ [croot])" for c
  proof (cases "c = croot")
    case True
    have "ringMember v0 v' (insert body D) croot body"
      using a(1) r P' unfolding ringMember_def by simp
    moreover have "ringMember v0 v' (insert body D) croot croot"
    proof (cases "body = croot")
      case True
      then show ?thesis using calculation by simp
    next
      case False
      from rootOf_child[OF a(3) False] have "\<exists>y. vP v0 y = Some croot" .
      moreover have "rootOf (vP v') croot croot"
        using rootOf_self[of "vP v" croot] rootOf_root[OF r] P' by simp
      ultimately show ?thesis using a(2) unfolding ringMember_def by simp
    qed
    ultimately have "\<forall>m \<in> set ?ms. ringMember v0 v' (insert body D) croot m"
      by (cases "body = croot") simp_all
    then show ?thesis using new True by blast
  next
    case False
    then have "c \<in> set comps" using that by simp
    from d(6)[OF this] obtain ms where ms: "ringPath (vN v) c ms c"
      "\<forall>m \<in> set ms. ringMember v0 v D c m" by blast
    have "\<forall>m \<in> set ms. ringMember v0 v' (insert body D) c m"
      using ms(2) P' unfolding ringMember_def by simp
    then show ?thesis using keep[OF ms(1)] by blast
  qed
  show "\<exists>c \<in> set (comps @ [croot]). \<exists>ms. ringPath (vN v') c ms c \<and> x \<in> set ms"
    if "vN v0 x = None" "vN v' x \<noteq> None" for x
  proof (cases "x = body \<or> x = croot")
    case True
    then have "x \<in> set ?ms" by auto
    then show ?thesis using new by auto
  next
    case False
    then have "vN v x \<noteq> None" using that(2) unfolding N' by simp
    from d(7)[OF that(1) this] obtain c ms where "c \<in> set comps" "ringPath (vN v) c ms c"
      "x \<in> set ms" by blast
    then show ?thesis using keep by auto
  qed
  show "vN v' x \<noteq> None" if "x \<in> insert body D" "vN v0 x = None" for x
  proof (cases "x = body \<or> x = croot")
    case True
    then show ?thesis unfolding N' by auto
  next
    case False
    then show ?thesis using d(8)[of x] that unfolding N' by simp
  qed
qed

lemma assembly_inv_insert:
  assumes j: "assembly_inv v0 v comps D" and B0: "awake_rooted v0"
    and nb: "vN v body = None" and nc: "vN v croot = Some nxt"
    and r: "rootOf (vP v) body croot"
    and v': "v' = v\<lparr>vN := ((vN v)(body := Some nxt))(croot := Some body)\<rparr>"
  shows "assembly_inv v0 v' comps (insert body D)"
proof (rule assembly_invI)
  note d = assembly_invD[OF j]
  note a = assembly_inv_root_awake[OF j B0 nb r]
  have N': "vN v' = ((vN v)(body := Some nxt))(croot := Some body)" using v' by simp
  have P': "vP v' = vP v" using v' by simp
  have bc: "body \<noteq> croot" using nb nc by auto
  have rc: "rootOf (vP v) croot croot" using rootOf_self[of "vP v" croot] rootOf_root[OF r] by simp
  have "vN v croot \<noteq> None" using nc by simp
  from assembly_inv_ring_of[OF j a(2) this rc] obtain ms where cm: "croot \<in> set comps"
    and ms: "ringPath (vN v) croot ms croot" "\<forall>m \<in> set ms. ringMember v0 v D croot m" by blast
  from ms(1) obtain rest where rest: "ms = croot # rest" by (cases ms) auto
  have new: "ringPath (vN v') croot (croot # body # rest) croot"
    using ring_insert[OF ms(1)[unfolded rest] nc nb N'] .
  have keep: "ringPath (vN v') c ms' c"
    if "ringPath (vN v) c ms' c" "\<forall>m \<in> set ms'. ringMember v0 v D c m" "c \<noteq> croot" for c ms'
  proof -
    have "croot \<notin> set ms'"
    proof
      assume "croot \<in> set ms'"
      then have "rootOf (vP v) croot c" using that(2) unfolding ringMember_def by blast
      then show False using rootOf_unique[OF rc] that(3) by blast
    qed
    moreover have "body \<notin> set ms'" using ringPath_asleep[OF that(1), of body] nb by blast
    ultimately have "\<forall>m \<in> set ms'. vN v' m = vN v m" unfolding N' by auto
    from ringPath_cong[OF that(1) this] show ?thesis .
  qed
  show "vR v' = vR v0" "vZ v' = vZ v0" using d(1,2) v' by simp_all
  show "\<And>x r. rootOf (vP v0) x r \<Longrightarrow> rootOf (vP v') x r" using d(3) P' by simp
  show "vN v0 x = None" if "vN v' x = None" for x
    using that d(4)[of x] unfolding N' by (auto split: if_splits)
  show "distinct comps" by (rule d(5))
  show "\<exists>ms. ringPath (vN v') c ms c \<and> (\<forall>m \<in> set ms. ringMember v0 v' (insert body D) c m)"
    if "c \<in> set comps" for c
  proof (cases "c = croot")
    case True
    have "ringMember v0 v' (insert body D) croot body"
      using a(1) r P' unfolding ringMember_def by simp
    moreover have "\<forall>m \<in> set ms. ringMember v0 v' (insert body D) croot m"
      using ms(2) P' unfolding ringMember_def by simp
    ultimately have "\<forall>m \<in> set (croot # body # rest). ringMember v0 v' (insert body D) croot m"
      using rest by simp
    then show ?thesis using new True by blast
  next
    case False
    from d(6)[OF that] obtain ms' where ms': "ringPath (vN v) c ms' c"
      "\<forall>m \<in> set ms'. ringMember v0 v D c m" by blast
    have "\<forall>m \<in> set ms'. ringMember v0 v' (insert body D) c m"
      using ms'(2) P' unfolding ringMember_def by simp
    then show ?thesis using keep[OF ms' False] by blast
  qed
  show "\<exists>c \<in> set comps. \<exists>ms. ringPath (vN v') c ms c \<and> x \<in> set ms"
    if "vN v0 x = None" "vN v' x \<noteq> None" for x
  proof (cases "x = body \<or> x = croot")
    case True
    then have "x \<in> set (croot # body # rest)" by auto
    then show ?thesis using new cm by blast
  next
    case False
    then have nx: "vN v x \<noteq> None" using that(2) unfolding N' by simp
    from d(7)[OF that(1) nx] obtain c ms0 where c: "c \<in> set comps" "ringPath (vN v) c ms0 c"
      "x \<in> set ms0" by blast
    from d(6)[OF c(1)] obtain ms' where ms': "ringPath (vN v) c ms' c"
      "\<forall>m \<in> set ms'. ringMember v0 v D c m" by blast
    have eq: "ms' = ms0" using ringPath_unique[OF ms'(1) c(2)] .
    show ?thesis
    proof (cases "c = croot")
      case True
      then have "ms0 = ms" using ringPath_unique[OF c(2)[unfolded True] ms(1)] by simp
      then have "x \<in> set (croot # body # rest)" using c(3) rest by auto
      then show ?thesis using new cm by blast
    next
      case False
      from keep[OF ms' False] show ?thesis using c(1,3) eq by blast
    qed
  qed
  show "vN v' x \<noteq> None" if "x \<in> insert body D" "vN v0 x = None" for x
  proof (cases "x = body \<or> x = croot")
    case True
    then show ?thesis unfolding N' by auto
  next
    case False
    then show ?thesis using d(8)[of x] that unfolding N' by simp
  qed
qed

lemma view_of_upd_next:
  assumes "h b = Some B"
  shows "view_of (h(b \<mapsto> B\<lparr>node := (node B)\<lparr>next := n\<rparr>\<rparr>))
         = (view_of h)\<lparr>vN := (vN (view_of h))(b := n)\<rparr>"
  using assms by (auto simp: view_of_def fun_eq_iff cpBodyIsRogue_def cpBodyIsStatic_def)

lemma link_ring_view:
  assumes B1: "h1 body = Some B1"
    and R2: "(h1(body \<mapsto> B1\<lparr>node := (node B1)\<lparr>next := Some n\<rparr>\<rparr>)) croot = Some R2"
  shows "view_of ((h1(body \<mapsto> B1\<lparr>node := (node B1)\<lparr>next := Some n\<rparr>\<rparr>))
                     (croot \<mapsto> R2\<lparr>node := (node R2)\<lparr>next := Some body\<rparr>\<rparr>))
         = (view_of h1)\<lparr>vN := ((vN (view_of h1))(body := Some n))(croot := Some body)\<rparr>"
proof -
  let ?h2 = "h1(body \<mapsto> B1\<lparr>node := (node B1)\<lparr>next := Some n\<rparr>\<rparr>)"
  have 1: "view_of ?h2 = (view_of h1)\<lparr>vN := (vN (view_of h1))(body := Some n)\<rparr>"
    using view_of_upd_next[of h1 body B1 "Some n", OF B1] .
  have 2: "view_of (?h2(croot \<mapsto> R2\<lparr>node := (node R2)\<lparr>next := Some body\<rparr>\<rparr>))
           = (view_of ?h2)\<lparr>vN := (vN (view_of ?h2))(croot := Some body)\<rparr>"
    using view_of_upd_next[of ?h2 croot R2 "Some body", OF R2] .
  show ?thesis unfolding 2 1 by simp
qed

lemma addToComponent_assembly_inv:
  assumes j: "assembly_inv v0 (view_of h) comps D" and B0: "awake_rooted v0"
    and run: "addToComponent h body comps = Some (h', comps')"
  shows "assembly_inv v0 (view_of h') comps' (insert body D)"
proof -
  from run obtain B where B: "h body = Some B"
    by (auto simp: addToComponent_def split: Option.bind_splits)
  show ?thesis
  proof (cases "next (node B) \<noteq> None")
    case True
    then have "h' = h" "comps' = comps" using run B by (auto simp: addToComponent_def)
    moreover have "vN (view_of h) body \<noteq> None" using True B by (simp add: view_of_def)
    ultimately show ?thesis using assembly_inv_skip[OF j] by simp
  next
    case False
    then have nb0: "vN (view_of h) body = None" using B by (simp add: view_of_def)
    from run B False obtain croot h1 R where
      f: "componentNodeRoot h body = Some (croot, h1)" and R: "h1 croot = Some R" and
      rest: "(case next (node R) of
              None \<Rightarrow>
                do {
                  let components1 = cpArrayPush comps croot;
                  B1 \<leftarrow> h1 body;
                  let h2 = h1(body \<mapsto> B1\<lparr>node := (node B1)\<lparr>next := Some croot\<rparr>\<rparr>);
                  R2 \<leftarrow> h2 croot;
                  Some (h2(croot \<mapsto> R2\<lparr>node := (node R2)\<lparr>next := Some body\<rparr>\<rparr>), components1)
                }
            | Some nxt \<Rightarrow>
                if croot \<noteq> body then
                  do {
                    B1 \<leftarrow> h1 body;
                    let h2 = h1(body \<mapsto> B1\<lparr>node := (node B1)\<lparr>next := Some nxt\<rparr>\<rparr>);
                    R2 \<leftarrow> h2 croot;
                    Some (h2(croot \<mapsto> R2\<lparr>node := (node R2)\<lparr>next := Some body\<rparr>\<rparr>), comps)
                  }
                else Some (h1, comps)) = Some (h', comps')"
      unfolding addToComponent_def
      by (auto simp add: bind_eq_Some_conv simp del: fun_upd_apply split: prod.split_asm)
    let ?v = "view_of h"
    let ?v1 = "view_of h1"
    from componentNodeRoot_view[OF f] obtain xs where
      ch: "pchain (vP ?v) body xs croot" and v1: "?v1 = ?v\<lparr>vP := compressP (vP ?v) xs croot\<rparr>"
      by auto
    have j1: "assembly_inv v0 ?v1 comps D" using assembly_inv_compress[OF j ch] v1 by simp
    have "rootOf (vP ?v) body croot" using ch unfolding rootOf_def by blast
    from compressP_rootOf[OF ch this] have r1: "rootOf (vP ?v1) body croot" using v1 by simp
    have nb: "vN ?v1 body = None" using nb0 v1 by simp
    have nR: "vN ?v1 croot = next (node R)" using R by (simp add: view_of_def)
    show ?thesis
    proof (cases "next (node R)")
      case None
      then obtain B1 R2 where B1: "h1 body = Some B1"
        and R2: "(h1(body \<mapsto> B1\<lparr>node := (node B1)\<lparr>next := Some croot\<rparr>\<rparr>)) croot = Some R2"
        and h': "h' = (h1(body \<mapsto> B1\<lparr>node := (node B1)\<lparr>next := Some croot\<rparr>\<rparr>))
                       (croot \<mapsto> R2\<lparr>node := (node R2)\<lparr>next := Some body\<rparr>\<rparr>)"
        and c': "comps' = comps @ [croot]"
        using rest
        by (auto simp add: bind_eq_Some_conv Let_def cpArrayPush_def simp del: fun_upd_apply)
      have nc: "vN ?v1 croot = None" using nR None by simp
      have "view_of h' = ?v1\<lparr>vN := ((vN ?v1)(body := Some croot))(croot := Some body)\<rparr>"
        unfolding h' by (rule link_ring_view[OF B1 R2])
      from assembly_inv_newring[OF j1 B0 nb nc r1 this] show ?thesis using c' by simp
    next
      case (Some nxt)
      have nc: "vN ?v1 croot = Some nxt" using nR Some by simp
      then have ne: "croot \<noteq> body" using nb by auto
      then obtain B1 R2 where B1: "h1 body = Some B1"
        and R2: "(h1(body \<mapsto> B1\<lparr>node := (node B1)\<lparr>next := Some nxt\<rparr>\<rparr>)) croot = Some R2"
        and h': "h' = (h1(body \<mapsto> B1\<lparr>node := (node B1)\<lparr>next := Some nxt\<rparr>\<rparr>))
                       (croot \<mapsto> R2\<lparr>node := (node R2)\<lparr>next := Some body\<rparr>\<rparr>)"
        and c': "comps' = comps"
        using rest Some
        by (auto simp add: bind_eq_Some_conv Let_def simp del: fun_upd_apply)
      have "view_of h' = ?v1\<lparr>vN := ((vN ?v1)(body := Some nxt))(croot := Some body)\<rparr>"
        unfolding h' by (rule link_ring_view[OF B1 R2])
      from assembly_inv_insert[OF j1 B0 nb nc r1 this] show ?thesis using c' by simp
    qed
  qed
qed

lemma addAllToComponent_assembly_inv:
  assumes "assembly_inv v0 (view_of h) comps D" and "awake_rooted v0"
    and "addAllToComponent h bs comps = Some (h', comps')"
  shows "assembly_inv v0 (view_of h') comps' (D \<union> set bs)"
  using assms
proof (induction bs arbitrary: h comps D)
  case Nil
  then show ?case by simp
next
  case (Cons b bs)
  from Cons.prems(3) obtain hm cm where s: "addToComponent h b comps = Some (hm, cm)"
    and r: "addAllToComponent hm bs cm = Some (h', comps')"
    by (auto simp add: bind_eq_Some_conv split: prod.split_asm)
  from Cons.IH[OF addToComponent_assembly_inv[OF Cons.prems(1,2) s] Cons.prems(2) r]
  show ?case by simp
qed

subsection \<open>The verdict loop\<close>

lemma verdict_inv_established:
  assumes inv: "forest_inv v0 bs rogues" and j: "assembly_inv v0 v comps (set bs \<union> set rogues)"
  shows "verdict_inv v comps"
  unfolding verdict_inv_def
proof (intro conjI ballI)
  note d = assembly_invD[OF j]
  from inv have D0: "rogues_covered v0 bs rogues" and E0: "rogues_listed v0 rogues" and F0: "bodies_bound v0 bs"
    unfolding forest_inv_def by simp_all
  show "distinct comps" by (rule d(5))
  fix c assume c: "c \<in> set comps"
  from d(6)[OF c] obtain ms where ms: "ringPath (vN v) c ms c"
    "\<forall>m \<in> set ms. ringMember v0 v (set bs \<union> set rogues) c m" by blast
  have roots: "\<forall>m \<in> set ms. rootOf (vP v) m c" using ms(2) unfolding ringMember_def by blast
  have "\<exists>x \<in> set ms. vZ v x" if m: "m \<in> set ms" "vR v m" for m
  proof -
    from ms(2) m(1) have mm: "vN v0 m = None" "rootOf (vP v) m c"
      "m \<in> set bs \<union> set rogues \<or> (\<exists>y. vP v0 y = Some m)" unfolding ringMember_def by blast+
    have r0: "vR v0 m" using m(2) d(1) by simp
    have "m \<in> set rogues"
    proof (cases "\<exists>y. vP v0 y = Some m")
      case True
      then show ?thesis using E0 r0 unfolding rogues_listed_def by blast
    next
      case False
      then have "m \<in> set bs \<union> set rogues" using mm(3) by blast
      moreover have "m \<notin> set bs" using F0 r0 unfolding bodies_bound_def by blast
      ultimately show ?thesis by blast
    qed
    with D0 obtain x r where x: "x \<in> set bs \<union> set rogues" "vN v0 x = None" "vZ v0 x"
      "rootOf (vP v0) x r" "rootOf (vP v0) m r" unfolding rogues_covered_def by blast
    have "r = c" using rootOf_unique[OF d(3)[OF x(5)] mm(2)] .
    then have xc: "rootOf (vP v) x c" using d(3)[OF x(4)] by simp
    have nx: "vN v x \<noteq> None" using d(8)[OF x(1,2)] .
    from assembly_inv_ring_of[OF j x(2) nx xc] obtain ms' where "ringPath (vN v) c ms' c" "x \<in> set ms'"
      by blast
    then have "x \<in> set ms" using ringPath_unique[OF ms(1)] by blast
    then show ?thesis using x(3) d(2) by auto
  qed
  then have "(\<exists>m \<in> set ms. vR v m) \<longrightarrow> (\<exists>m \<in> set ms. vZ v m)" by blast
  then show "\<exists>ms. ringGood v c ms" using ms(1) roots unfolding ringGood_def by blast
qed

lemma changed_only_refl: "changed_only v v ms"
  by (simp add: changed_only_def)

lemma changed_only_Cons:
  "changed_only v v1 [b] \<Longrightarrow> changed_only v1 v' ms \<Longrightarrow> changed_only v v' (b # ms)"
  unfolding changed_only_def by auto

lemma verdict_inv_step:
  assumes v: "verdict_inv v (c # cs)" and ring: "ringPath (vN v) c ms c" and ch: "changed_only v v' ms"
  shows "verdict_inv v' cs"
  unfolding verdict_inv_def
proof (intro conjI ballI)
  from v have dist: "distinct (c # cs)" and all: "\<And>c'. c' \<in> set (c # cs) \<Longrightarrow> \<exists>ms. ringGood v c' ms"
    unfolding verdict_inv_def by blast+
  show "distinct cs" using dist by simp
  from all[of c] obtain ms0 where g0: "ringGood v c ms0" by auto
  have "ms0 = ms" using g0 ringPath_unique[OF ring] unfolding ringGood_def by blast
  then have rc: "\<forall>m \<in> set ms. rootOf (vP v) m c" using g0 unfolding ringGood_def by blast
  fix c' assume c': "c' \<in> set cs"
  then have ne: "c' \<noteq> c" using dist by auto
  from all[of c'] c' obtain ms' where g: "ringPath (vN v) c' ms' c'"
    "\<forall>m \<in> set ms'. rootOf (vP v) m c'"
    "(\<exists>m \<in> set ms'. vR v m) \<longrightarrow> (\<exists>m \<in> set ms'. vZ v m)"
    unfolding ringGood_def by auto
  have out: "x \<notin> set ms" if "rootOf (vP v) x c'" for x
  proof
    assume "x \<in> set ms"
    then have "rootOf (vP v) x c" using rc by blast
    then show False using rootOf_unique[OF that] ne by blast
  qed
  have "\<forall>m \<in> set ms'. vN v' m = vN v m" using g(2) out ch unfolding changed_only_def by blast
  from ringPath_cong[OF g(1) this] have 1: "ringPath (vN v') c' ms' c'" .
  have 2: "rootOf (vP v') m c'" if "m \<in> set ms'" for m
  proof -
    from g(2) that obtain xs where xs: "pchain (vP v) m xs c'" unfolding rootOf_def by blast
    have "\<forall>x \<in> set xs \<union> {c'}. vP v' x = vP v x"
      using pchain_nodes_rooted[OF xs] out ch unfolding changed_only_def by blast
    from pchain_cong[OF xs this] show ?thesis unfolding rootOf_def by blast
  qed
  have 3: "(\<exists>m \<in> set ms'. vR v' m) \<longrightarrow> (\<exists>m \<in> set ms'. vZ v' m)"
    using g(3) ch unfolding changed_only_def by simp
  show "\<exists>ms. ringGood v' c' ms" using 1 2 3 unfolding ringGood_def by blast
qed

lemma view_of_upd_reset:
  assumes "h b = Some B"
  shows "changed_only (view_of h)
           (view_of (h(b \<mapsto> B\<lparr>node := \<lparr>parent = None, next = None, rank = 0,
                                        idleTime = idleTime (node B)\<rparr>\<rparr>))) [b]"
  using assms
  by (auto simp: view_of_def changed_only_def fun_eq_iff cpBodyIsRogue_def cpBodyIsStatic_def)

lemma republish_ring_view:
  assumes "republish_ring w croot body nb = Some res"
  shows "\<exists>ms. ringPath (vN (view_of (bodyH w))) body ms croot
            \<and> changed_only (view_of (bodyH w)) (view_of (bodyH (fst res))) ms
            \<and> sleepTimeThreshold (fst res) = sleepTimeThreshold w
            \<and> sleepingComponents (fst res) = sleepingComponents w"
  using assms
proof (induct rule: republish_ring.raw_induct[rotated, consumes 1, case_names step])
  case (step self w croot body nb res)
  from step(2) obtain B where B: "bodyH w body = Some B" by (auto split: option.splits)
  define w1 where "w1 = w\<lparr>bodyH := (bodyH w)(body \<mapsto>
                         B\<lparr>node := \<lparr>parent = None, next = None, rank = 0,
                                    idleTime = idleTime (node B)\<rparr>\<rparr>)\<rparr>"
  define nb1 where "nb1 = (if \<not> cpBodyIsRogue B then cpArrayPush nb body else nb)"
  from step(2) B obtain n where s: "next (node B) = Some n"
    "(n = croot \<and> res = (w1, nb1)) \<or> (n \<noteq> croot \<and> self w1 croot n nb1 = Some res)"
    by (auto simp: Let_def w1_def nb1_def split: option.splits if_splits)
  let ?v = "view_of (bodyH w)"
  have c1: "changed_only ?v (view_of (bodyH w1)) [body]"
    using view_of_upd_reset[of "bodyH w" body B, OF B] by (simp add: w1_def)
  have N: "vN ?v body = Some n" using B s(1) by (simp add: view_of_def)
  have f1: "sleepTimeThreshold w1 = sleepTimeThreshold w"
    "sleepingComponents w1 = sleepingComponents w" by (simp_all add: w1_def)
  from s(2) show ?case
  proof
    assume a: "n = croot \<and> res = (w1, nb1)"
    then have "ringPath (vN ?v) body [body] croot" using N by simp
    then show ?thesis using a c1 f1 by (intro exI[of _ "[body]"]) simp
  next
    assume a: "n \<noteq> croot \<and> self w1 croot n nb1 = Some res"
    then have run: "self w1 croot n nb1 = Some res" by simp
    from step(1)[OF run] obtain ms where ms:
      "ringPath (vN (view_of (bodyH w1))) n ms croot"
      "changed_only (view_of (bodyH w1)) (view_of (bodyH (fst res))) ms"
      "sleepTimeThreshold (fst res) = sleepTimeThreshold w1"
      "sleepingComponents (fst res) = sleepingComponents w1"
      by blast
    have n1: "vN (view_of (bodyH w1)) body = None" using B by (simp add: w1_def view_of_def)
    have "body \<notin> set ms" using ringPath_asleep[OF ms(1), of body] n1 by blast
    then have "\<forall>m \<in> set ms. vN ?v m = vN (view_of (bodyH w1)) m"
      using c1 unfolding changed_only_def by auto
    from ringPath_cong[OF ms(1) this] have "ringPath (vN ?v) n ms croot" .
    then have r: "ringPath (vN ?v) body (body # ms) croot" using N a by simp
    from changed_only_Cons[OF c1 ms(2)] r ms(3,4) f1 show ?thesis
      by (intro exI[of _ "body # ms"]) simp
  qed
qed

lemma processComponent_verdict_inv:
  assumes v: "verdict_inv (view_of (bodyH w)) (c # cs)" and run: "processComponent w nb c = Some (w', nb')"
  shows "verdict_inv (view_of (bodyH w')) cs \<and> sleepTimeThreshold w' = sleepTimeThreshold w"
proof -
  from run obtain active where a: "componentActive (bodyH w) c (sleepTimeThreshold w) = Some active"
    by (auto simp: processComponent_def split: Option.bind_splits)
  from v obtain ms0 where ring0: "ringPath (vN (view_of (bodyH w))) c ms0 c"
    unfolding verdict_inv_def ringGood_def by auto
  show ?thesis
  proof (cases active)
    case True
    then have r: "republish_ring w c c nb = Some (w', nb')"
      using run a by (simp add: processComponent_def)
    from republish_ring_view[OF r] obtain ms where ms:
      "ringPath (vN (view_of (bodyH w))) c ms c"
      "changed_only (view_of (bodyH w)) (view_of (bodyH w')) ms"
      "sleepTimeThreshold w' = sleepTimeThreshold w" by auto
    from verdict_inv_step[OF v ms(1,2)] ms(3) show ?thesis by simp
  next
    case False
    then obtain w1 where d: "deactivate_ring w c c = Some w1"
      and w': "w' = w1\<lparr>sleepingComponents := cpArrayPush (sleepingComponents w1) c\<rparr>"
      using run a by (auto simp: processComponent_def split: Option.bind_splits)
    from deactivate_ring_frame[OF d] have "bodyH w1 = bodyH w"
      "sleepTimeThreshold w1 = sleepTimeThreshold w" unfolding deactivation_frame_def by simp_all
    then have "view_of (bodyH w') = view_of (bodyH w)" "sleepTimeThreshold w' = sleepTimeThreshold w"
      using w' by simp_all
    then show ?thesis using verdict_inv_step[OF v ring0 changed_only_refl] by simp
  qed
qed

lemma processComponentsAll_verdict_inv:
  assumes "verdict_inv (view_of (bodyH w)) (pre @ cs)" and "processComponentsAll w nb pre = Some (w', nb')"
  shows "verdict_inv (view_of (bodyH w')) cs \<and> sleepTimeThreshold w' = sleepTimeThreshold w"
  using assms
proof (induction pre arbitrary: w nb)
  case Nil
  then show ?case by simp
next
  case (Cons c pre)
  from Cons.prems(2) obtain wm nm where s: "processComponent w nb c = Some (wm, nm)"
    and r: "processComponentsAll wm nm pre = Some (w', nb')"
    by (auto simp add: bind_eq_Some_conv split: prod.split_asm)
  from Cons.prems(1) have "verdict_inv (view_of (bodyH w)) (c # (pre @ cs))" by simp
  from processComponent_verdict_inv[OF this s] Cons.IH[OF _ r] show ?case by simp
qed

lemma componentActive_ring_true:
  assumes "ringPath (vN (view_of h)) b ms c" and "\<exists>m \<in> set ms. vZ (view_of h) m" and "0 < thr"
  shows "componentActive_ring h c b thr = Some True"
  using assms
proof (induction ms arbitrary: b)
  case Nil
  then show ?case by simp
next
  case (Cons x xs)
  from Cons.prems(1) obtain n where n: "x = b" "vN (view_of h) b = Some n"
    "if n = c then xs = [] else ringPath (vN (view_of h)) n xs c"
    by (auto split: option.splits)
  from n(2) obtain B where B: "h b = Some B" "next (node B) = Some n"
    by (cases "h b") (auto simp: view_of_def)
  show ?case
  proof (cases "idleTime (node B) < thr")
    case True
    then show ?thesis using B by (subst componentActive_ring.simps) simp
  next
    case False
    then have "\<not> vZ (view_of h) b" using B Cons.prems(3) by (auto simp: view_of_def)
    then have ex: "\<exists>m \<in> set xs. vZ (view_of h) m" using Cons.prems(2) n(1) by auto
    then have "xs \<noteq> []" by auto
    then have nc: "n \<noteq> c" and rp: "ringPath (vN (view_of h)) n xs c" using n(3) by (auto split: if_splits)
    from Cons.IH[OF rp ex Cons.prems(3)] show ?thesis
      using B False nc by (subst componentActive_ring.simps) simp
  qed
qed

lemma ringMembers_ringPath:
  assumes "ringMembers h c b = Some ms"
  shows "ringPath (vN (view_of h)) b ms c"
  using assms
proof (induct rule: ringMembers.raw_induct[rotated, consumes 1, case_names step])
  case (step self h c b ms)
  from step(2) obtain B n where B: "h b = Some B" "next (node B) = Some n"
    by (auto split: option.splits)
  have N: "vN (view_of h) b = Some n" using B by (simp add: view_of_def)
  show ?case
  proof (cases "n = c")
    case True
    then show ?thesis using step(2) B N by auto
  next
    case False
    then obtain ms' where ms': "self h c n = Some ms'" "ms = b # ms'"
      using step(2) B by (auto split: Option.bind_splits)
    from step(1)[OF ms'(1)] show ?thesis using N False ms'(2) by simp
  qed
qed

lemma buildComponents_verdict_inv:
  assumes wf: "space_inv w []" and run: "buildComponents w dt = Some (w5, comps)"
  shows "verdict_inv (view_of (bodyH w5)) comps \<and> sleepTimeThreshold w5 = sleepTimeThreshold w"
proof -
  define dvsq where "dvsq = (if idleSpeedThreshold w \<noteq> 0 then idleSpeedThreshold w * idleSpeedThreshold w
                             else cpvdot (gravity w) (gravity w) * dt * dt)"
  from run obtain w1 w2 rogues2 w3 rogues3 h4 c4 h5 where
    s1: "updateIdleAll w dvsq dt (bodies w) = Some w1" and
    s2: "mergeArbiters w1 [] [] (arbiters w1) = Some (w2, rogues2)" and
    s3: "mergeConstraints w2 [] rogues2 0 = Some (w3, rogues3)" and
    s4: "addAllToComponent (bodyH w3) (bodies w3) [] = Some (h4, c4)" and
    s5: "addAllToComponent h4 rogues3 c4 = Some (h5, comps)" and
    w5: "w5 = w3\<lparr>bodyH := h5\<rparr>"
    unfolding buildComponents_def Let_def dvsq_def
    by (auto simp add: bind_eq_Some_conv split: prod.split_asm)
  from updateIdleAll_space_inv[OF wf s1] have 1: "space_inv w1 []"
    "sleepTimeThreshold w1 = sleepTimeThreshold w" by simp_all
  from mergeArbiters_space_inv[OF 1(1) s2] have 2: "space_inv w2 rogues2"
    "sleepTimeThreshold w2 = sleepTimeThreshold w1" by simp_all
  from mergeConstraints_space_inv[OF s3 2(1)] have 3: "space_inv w3 rogues3"
    "sleepTimeThreshold w3 = sleepTimeThreshold w2" by simp_all
  let ?v0 = "view_of (bodyH w3)"
  from 3(1) have inv: "forest_inv ?v0 (bodies w3) rogues3" unfolding space_inv_def by simp
  then have B0: "awake_rooted ?v0" unfolding forest_inv_def by simp
  from addAllToComponent_assembly_inv[OF assembly_inv_init B0 s4] have "assembly_inv ?v0 (view_of h4) c4 (set (bodies w3))" by simp
  from addAllToComponent_assembly_inv[OF this B0 s5]
  have "assembly_inv ?v0 (view_of h5) comps (set (bodies w3) \<union> set rogues3)" .
  from verdict_inv_established[OF inv this] show ?thesis using w5 1 2 3 by simp
qed

text \<open>
  Claim C6, as amended. Take a space between two steps (\<open>wf_space\<close>) whose
  \<open>sleepTimeThreshold\<close> is positive, and a run of \<^verbatim>\<open>cpSpaceProcessComponents\<close> that has
  built the components \<open>pre @ c # post\<close> and judged those of \<open>pre\<close>. If the ring of \<open>c\<close>
  then holds a rogue body, \<^verbatim>\<open>componentActive\<close> returns true for \<open>c\<close>, so the verdict on
  \<open>c\<close> is the loop that republishes the ring: \<^verbatim>\<open>cpSpaceDeactivateBody\<close> is called on no
  member and \<open>sleepingComponents\<close> is left as it was.
\<close>

theorem rogue_component_judged_active:
  assumes wf: "wf_space w" and thr: "0 < sleepTimeThreshold w"
    and build: "buildComponents w dt = Some (w5, pre @ c # post)"
    and pre: "processComponentsAll w5 [] pre = Some (wi, nbi)"
    and ring: "ringMembers (bodyH wi) c c = Some ms"
    and m: "m \<in> set ms" "bodyH wi m = Some M" "cpBodyIsRogue M"
    and step: "processComponent wi nbi c = Some (wj, nbj)"
  shows "componentActive (bodyH wi) c (sleepTimeThreshold wi) = Some True
         \<and> republish_ring wi c c nbi = Some (wj, nbj)
         \<and> sleepingComponents wj = sleepingComponents wi"
proof -
  let ?v = "view_of (bodyH wi)"
  from wf have "space_inv w []" unfolding wf_space_def .
  from buildComponents_verdict_inv[OF this build] have v5: "verdict_inv (view_of (bodyH w5)) (pre @ c # post)"
    and t5: "sleepTimeThreshold w5 = sleepTimeThreshold w" by simp_all
  from processComponentsAll_verdict_inv[OF v5 pre] have vi: "verdict_inv ?v (c # post)"
    and ti: "sleepTimeThreshold wi = sleepTimeThreshold w5" by simp_all
  from vi obtain ms0 where g: "ringGood ?v c ms0" unfolding verdict_inv_def by auto
  have rp: "ringPath (vN ?v) c ms c" by (rule ringMembers_ringPath[OF ring])
  have "ms0 = ms" using g ringPath_unique[OF rp] unfolding ringGood_def by blast
  moreover have "vR ?v m" using m(2,3) by (simp add: view_of_def)
  ultimately have z: "\<exists>x \<in> set ms. vZ ?v x" using g m(1) unfolding ringGood_def by blast
  have pos: "0 < sleepTimeThreshold wi" using thr t5 ti by simp
  have act: "componentActive (bodyH wi) c (sleepTimeThreshold wi) = Some True"
    unfolding componentActive_def by (rule componentActive_ring_true[OF rp z pos])
  then have r: "republish_ring wi c c nbi = Some (wj, nbj)"
    using step by (simp add: processComponent_def)
  from republish_ring_view[OF r] have "sleepingComponents wj = sleepingComponents wi" by auto
  then show ?thesis using act r by simp
qed

lemmas rogue_defs = rogueWorld_def eagerWorld_def exWorld_def exBody_def exNode_def exShape_def
  exArbiter_def

lemma rogue_run:
  "map_option (\<lambda>(w5, comps). (comps, map_option node (bodyH w5 1), map_option node (bodyH w5 3),
     map_option cpBodyIsRogue (bodyH w5 3), sleepingComponents w5,
     ringMembers (bodyH w5) 1 1, componentActive (bodyH w5) 1 (sleepTimeThreshold w5),
     map_option (\<lambda>(wj, nbj). (nbj, sleepingComponents wj, arbiters wj)) (processComponent w5 [] 1)))
     (buildComponents rogueWorld 1)
   = Some ([1], Some \<lparr>parent = None, next = Some 3, rank = 1, idleTime = 0\<rparr>,
           Some \<lparr>parent = Some 1, next = Some 1, rank = 0, idleTime = 0\<rparr>,
           Some True, [], Some [1, 3], Some True, Some ([1], [], [21]))"
  by (simp add: rogue_defs model_defs loop_simps ringMembers.simps Let_def)

lemma eager_run:
  "map_option (\<lambda>(w5, comps). (comps, map_option node (bodyH w5 1), map_option node (bodyH w5 3),
     map_option cpBodyIsRogue (bodyH w5 3), sleepingComponents w5,
     ringMembers (bodyH w5) 1 1, componentActive (bodyH w5) 1 (sleepTimeThreshold w5),
     map_option (\<lambda>(wj, nbj). (nbj, sleepingComponents wj, arbiters wj)) (processComponent w5 [] 1)))
     (buildComponents eagerWorld 1)
   = Some ([1], Some \<lparr>parent = None, next = Some 3, rank = 1, idleTime = 0\<rparr>,
           Some \<lparr>parent = Some 1, next = Some 1, rank = 0, idleTime = 0\<rparr>,
           Some True, [], Some [1, 3], Some False, Some ([], [1], []))"
  by (simp add: rogue_defs model_defs loop_simps ringMembers.simps Let_def)

lemma wf_space_no_links:
  assumes "\<not> locked w"
    and "\<forall>b B. bodyH w b = Some B \<longrightarrow> parent (node B) = None \<and> next (node B) = None"
    and "\<forall>b \<in> set (bodies w). \<exists>B. bodyH w b = Some B \<and> \<not> cpBodyIsRogue B"
    and "\<forall>b B. bodyH w b = Some B \<and> \<not> cpBodyIsStatic B \<and> \<not> cpBodyIsRogue B \<longrightarrow> b \<in> set (bodies w)"
  shows "wf_space w"
proof -
  let ?v = "view_of (bodyH w)"
  have P: "vP ?v b = None" and N: "vN ?v b = None" for b
    using assms(2) by (auto simp: view_of_def split: option.splits)
  have "awake_rooted ?v" unfolding awake_rooted_def using rootOf_self[of "vP ?v"] P N by blast
  moreover have "asleep_ringed ?v" unfolding asleep_ringed_def using N by simp
  moreover have "rogues_covered ?v (bodies w) []" unfolding rogues_covered_def by simp
  moreover have "rogues_listed ?v []" unfolding rogues_listed_def using P by simp
  moreover have "bodies_bound ?v (bodies w)" unfolding bodies_bound_def using assms(3) by (auto simp: view_of_def)
  moreover have "rogues_awake ?v" unfolding rogues_awake_def using N by simp
  moreover have "active_listed ?v (bodies w)" unfolding active_listed_def using assms(4)
    by (auto simp: view_of_def split: option.splits)
  ultimately show ?thesis using assms(1) unfolding wf_space_def space_inv_def forest_inv_def by simp
qed

lemma wf_space_rogueWorld: "wf_space rogueWorld"
  by (rule wf_space_no_links)
     (auto simp: rogue_defs cpBodyIsRogue_def cpBodyIsStatic_def split: if_splits)

lemma wf_space_eagerWorld: "wf_space eagerWorld"
  by (rule wf_space_no_links)
     (auto simp: rogue_defs cpBodyIsRogue_def cpBodyIsStatic_def split: if_splits)

theorem rogue_component_judged_active_witness:
  "wf_space rogueWorld \<and> 0 < sleepTimeThreshold rogueWorld
   \<and> (\<exists>w5. buildComponents rogueWorld 1 = Some (w5, [1])
         \<and> ringMembers (bodyH w5) 1 1 = Some [1, 3]
         \<and> map_option cpBodyIsRogue (bodyH w5 3) = Some True
         \<and> componentActive (bodyH w5) 1 (sleepTimeThreshold w5) = Some True
         \<and> (\<exists>wj. processComponent w5 [] 1 = Some (wj, [1])
                \<and> republish_ring w5 1 1 [] = Some (wj, [1])
                \<and> sleepingComponents wj = sleepingComponents w5))"
proof -
  from rogue_run obtain w5 wj M where
    b: "buildComponents rogueWorld 1 = Some (w5, [1])" and
    r: "ringMembers (bodyH w5) 1 1 = Some [1, 3]" and
    M: "bodyH w5 3 = Some M" "cpBodyIsRogue M" and
    p: "processComponent w5 [] 1 = Some (wj, [1])"
    by (cases "buildComponents rogueWorld 1") auto
  have thr: "0 < sleepTimeThreshold rogueWorld" by (simp add: rogue_defs)
  have b': "buildComponents rogueWorld 1 = Some (w5, [] @ 1 # [])" using b by simp
  have pre: "processComponentsAll w5 [] [] = Some (w5, [])" by simp
  have m: "(3::nat) \<in> set [1, 3]" by simp
  from rogue_component_judged_active[OF wf_space_rogueWorld thr b' pre r m M p]
  show ?thesis using wf_space_rogueWorld thr b r M p by simp
qed

text \<open>
  In \<open>eagerWorld\<close>, whose \<open>sleepTimeThreshold\<close> is 0, the ring of component 1 holds
  the rogue body 3, both members have idle time 0, and the test
  \<^verbatim>\<open>idleTime < threshold\<close> fails for both: the component is judged not active, its
  members are deactivated and its root is appended to \<open>sleepingComponents\<close>.
\<close>

theorem rogue_component_sleeps_counterexample:
  "wf_space eagerWorld \<and> sleepTimeThreshold eagerWorld = 0
   \<and> map_option (\<lambda>(w5, comps). (comps, ringMembers (bodyH w5) 1 1,
          map_option cpBodyIsRogue (bodyH w5 3),
          componentActive (bodyH w5) 1 (sleepTimeThreshold w5), sleepingComponents w5,
          map_option (\<lambda>(wj, nbj). (nbj, sleepingComponents wj)) (processComponent w5 [] 1)))
        (buildComponents eagerWorld 1)
      = Some ([1], Some [1, 3], Some True, Some False, [], Some ([], [1]))
   \<and> map_option (\<lambda>w'. (bodies w', sleepingComponents w',
                         map_option cpBodyIsRogue (bodyH w' 3),
                         map_option cpBodyIsSleeping (bodyH w' 3)))
        (cpSpaceProcessComponents eagerWorld 1)
      = Some ([], [1], Some True, Some True)"
proof -
  have "sleepTimeThreshold eagerWorld = 0" by (simp add: rogue_defs)
  moreover have "map_option (\<lambda>(w5, comps). (comps, ringMembers (bodyH w5) 1 1,
          map_option cpBodyIsRogue (bodyH w5 3),
          componentActive (bodyH w5) 1 (sleepTimeThreshold w5), sleepingComponents w5,
          map_option (\<lambda>(wj, nbj). (nbj, sleepingComponents wj)) (processComponent w5 [] 1)))
        (buildComponents eagerWorld 1)
      = Some ([1], Some [1, 3], Some True, Some False, [], Some ([], [1]))"
    using eager_run by (cases "buildComponents eagerWorld 1") auto
  moreover have "map_option (\<lambda>w'. (bodies w', sleepingComponents w',
                         map_option cpBodyIsRogue (bodyH w' 3),
                         map_option cpBodyIsSleeping (bodyH w' 3)))
        (cpSpaceProcessComponents eagerWorld 1)
      = Some ([], [1], Some True, Some True)"
    by (simp add: rogue_defs model_defs loop_simps Let_def)
  ultimately show ?thesis using wf_space_eagerWorld by simp
qed

subsection \<open>Worlds of the same structure\<close>

lemma same_structure_refl: "same_structure w w"
  by (simp add: same_structure_def)

lemma same_structure_trans:
  "same_structure w w1 \<Longrightarrow> same_structure w1 w2 \<Longrightarrow> same_structure w w2"
  by (simp add: same_structure_def)

lemma same_structure_shape:
  assumes "same_structure w w'" and "shapeH w x = Some S"
  shows "\<exists>S'. shapeH w' x = Some S' \<and> shape_body S' = shape_body S
              \<and> shape_next S' = shape_next S \<and> hashid S' = hashid S"
proof -
  from assms(1) have "map_option (\<lambda>S. (shape_body S, shape_next S, hashid S)) (shapeH w' x)
             = map_option (\<lambda>S. (shape_body S, shape_next S, hashid S)) (shapeH w x)"
    unfolding same_structure_def by blast
  then show ?thesis using assms(2) by (cases "shapeH w' x") auto
qed

lemma same_structure_shape_None:
  assumes "same_structure w w'" and "shapeH w x = None"
  shows "shapeH w' x = None"
proof -
  from assms(1) have "map_option (\<lambda>S. (shape_body S, shape_next S, hashid S)) (shapeH w' x)
             = map_option (\<lambda>S. (shape_body S, shape_next S, hashid S)) (shapeH w x)"
    unfolding same_structure_def by blast
  then show ?thesis using assms(2) by simp
qed

lemma same_structure_body:
  assumes "same_structure w w'" and "bodyH w x = Some B"
  shows "\<exists>B'. bodyH w' x = Some B' \<and> static B' = static B \<and> space B' = space B
              \<and> shapeList B' = shapeList B \<and> arbiterList B' = arbiterList B
              \<and> constraintList B' = constraintList B"
proof -
  from assms(1) have
    "map_option (\<lambda>B. (static B, space B, shapeList B, arbiterList B, constraintList B)) (bodyH w' x)
     = map_option (\<lambda>B. (static B, space B, shapeList B, arbiterList B, constraintList B)) (bodyH w x)"
    unfolding same_structure_def by blast
  then show ?thesis using assms(2) by (cases "bodyH w' x") auto
qed

lemma same_structure_body_None:
  assumes "same_structure w w'" and "bodyH w x = None"
  shows "bodyH w' x = None"
proof -
  from assms(1) have
    "map_option (\<lambda>B. (static B, space B, shapeList B, arbiterList B, constraintList B)) (bodyH w' x)
     = map_option (\<lambda>B. (static B, space B, shapeList B, arbiterList B, constraintList B)) (bodyH w x)"
    unfolding same_structure_def by blast
  then show ?thesis using assms(2) by simp
qed

lemma same_structure_primary:
  assumes s: "same_structure w w'"
  shows "arbiterPrimary w' body x = arbiterPrimary w body x"
proof -
  have a: "arbH w' = arbH w" using s by (simp add: same_structure_def)
  show ?thesis
  proof (cases "arbH w x")
    case None
    then show ?thesis using a by (simp add: arbiterPrimary_def)
  next
    case (Some A)
    show ?thesis
    proof (cases "shapeH w (arb_a A)")
      case None
      from same_structure_shape_None[OF s None] show ?thesis
        using Some None a by (simp add: arbiterPrimary_def)
    next
      case (Some S)
      from same_structure_shape[OF s Some] obtain S' where
        S': "shapeH w' (arb_a A) = Some S'" "shape_body S' = shape_body S" by blast
      show ?thesis
      proof (cases "bodyH w (shape_body S)")
        case None
        from same_structure_body_None[OF s None] show ?thesis
          using \<open>arbH w x = Some A\<close> Some S' None a by (simp add: arbiterPrimary_def)
      next
        case (Some Ba)
        from same_structure_body[OF s Some] obtain Ba' where
          "bodyH w' (shape_body S) = Some Ba'" "static Ba' = static Ba" by blast
        then show ?thesis
          using \<open>arbH w x = Some A\<close> \<open>shapeH w (arb_a A) = Some S\<close> S' Some a
          by (simp add: arbiterPrimary_def cpBodyIsStatic_def)
      qed
    qed
  qed
qed

lemma same_structure_next:
  assumes s: "same_structure w w'"
  shows "arbiterNext w' body x = arbiterNext w body x"
proof -
  have a: "arbH w' = arbH w" using s by (simp add: same_structure_def)
  show ?thesis
  proof (cases "arbH w x")
    case None
    then show ?thesis using a by (simp add: arbiterNext_def)
  next
    case (Some A)
    show ?thesis
    proof (cases "shapeH w (arb_a A)")
      case None
      from same_structure_shape_None[OF s None] show ?thesis
        using Some None a by (simp add: arbiterNext_def)
    next
      case (Some S)
      from same_structure_shape[OF s Some] obtain S' where
        S': "shapeH w' (arb_a A) = Some S'" "shape_body S' = shape_body S" by blast
      then show ?thesis using \<open>arbH w x = Some A\<close> Some a by (simp add: arbiterNext_def)
    qed
  qed
qed

lemma same_structure_chain:
  assumes "arbiterChain w body ap = Some xs" and s: "same_structure w w'"
  shows "arbiterChain w' body ap = Some xs"
  using assms(1)
proof (induction xs arbitrary: ap)
  case Nil
  then have "ap = None"
    by (cases ap) (auto simp: arbiterChain.simps[of w body "Some _"] split: Option.bind_splits)
  then show ?case by (simp add: arbiterChain.simps[of w' body None])
next
  case (Cons x xs)
  from Cons.prems obtain nxt where n: "ap = Some x" "arbiterNext w body x = Some nxt"
     "arbiterChain w body nxt = Some xs"
    by (cases ap) (auto simp: arbiterChain.simps[of w body "None"]
                              arbiterChain.simps[of w body "Some _"] split: Option.bind_splits)
  have "arbiterNext w' body x = Some nxt" using same_structure_next[OF s] n(2) by simp
  then show ?case using Cons.IH[OF n(3)] n(1) by (simp add: arbiterChain.simps[of w' body "Some x"])
qed



lemma same_structure_held:
  assumes "same_structure w w'" shows "heldBlock w' x = heldBlock w x"
proof -
  from assms have e: "arbH w' = arbH w" "blocks w' = blocks w" by (simp_all add: same_structure_def)
  show ?thesis unfolding heldBlock_def e by (rule refl)
qed


lemma same_structure_restorable:
  "same_structure w w' \<Longrightarrow> restorable w' body xs = restorable w body xs"
  by (simp add: restorable_def same_structure_primary same_structure_held)



lemma same_structure_constraintPrimary:
  assumes s: "same_structure w w'"
  shows "constraintPrimary w' body c = constraintPrimary w body c"
proof -
  have a: "conH w' = conH w" using s by (simp add: same_structure_def)
  show ?thesis
  proof (cases "conH w c")
    case None
    then show ?thesis using a by (simp add: constraintPrimary_def)
  next
    case (Some C)
    show ?thesis
    proof (cases "bodyH w (con_a C)")
      case None
      from same_structure_body_None[OF s None] show ?thesis
        using Some None a by (simp add: constraintPrimary_def)
    next
      case B: (Some Ba)
      from same_structure_body[OF s B] obtain Ba' where
        "bodyH w' (con_a C) = Some Ba'" "static Ba' = static Ba" by blast
      then show ?thesis using Some B a by (simp add: constraintPrimary_def cpBodyIsStatic_def)
    qed
  qed
qed

lemma same_structure_constraintsOk:
  "same_structure w w' \<Longrightarrow> constraintsOk w' body cs = constraintsOk w body cs"
  by (simp add: constraintsOk_def same_structure_constraintPrimary)


subsection \<open>The loops over shapes and constraints return\<close>

lemma activateShapes_structure:
  assumes "activateShapes w sp = Some w'" shows "same_structure w w'"
  using assms
proof (induct rule: activateShapes.raw_induct[rotated, consumes 1, case_names step])
  case (step self w sp w')
  then show ?case by (auto simp: same_structure_def split: option.splits)
qed


lemma activateShapes_returns:
  "shapePath (shapeH w) sp ss \<Longrightarrow> \<exists>w'. activateShapes w sp = Some w'"
proof (induction ss arbitrary: w sp)
  case Nil
  then show ?case by (simp add: activateShapes.simps)
next
  case (Cons x ss)
  from Cons.prems obtain S where S: "sp = Some x" "shapeH w x = Some S"
    "shapePath (shapeH w) (shape_next S) ss" by (auto split: option.splits)
  define w1 where "w1 = w\<lparr>staticShapes := cpSpatialIndexRemove (staticShapes w) x (hashid S),
                          activeShapes := cpSpatialIndexInsert (activeShapes w) x (hashid S)\<rparr>"
  have "shapePath (shapeH w1) (shape_next S) ss" using S(3) by (simp add: w1_def)
  from Cons.IH[OF this] obtain w' where "activateShapes w1 (shape_next S) = Some w'" by blast
  then show ?case using S(1,2) by (subst activateShapes.simps) (simp add: w1_def)
qed







subsection \<open>The loops over constraints return\<close>

lemma constraintNext_path:
  assumes "constraintPath (conH w) body (Some c) (c # cs)"
  shows "\<exists>nxt. constraintNext w body c = Some nxt \<and> constraintPath (conH w) body nxt cs"
  using assms by (auto simp: constraintNext_def split: option.splits)

lemma activateConstraints_returns:
  assumes "constraintPath (conH w) body cp cs" and "constraintsOk w body cs"
  shows "\<exists>w'. activateConstraints w body cp = Some w' \<and> same_structure w w'
               \<and> bodies w' = bodies w \<and> sleepingComponents w' = sleepingComponents w"
  using assms
proof (induction cs arbitrary: w cp)
  case Nil
  then show ?case by (simp add: activateConstraints.simps same_structure_refl)
next
  case (Cons c cs)
  from Cons.prems(1) have cp: "cp = Some c" by simp
  from Cons.prems(2) obtain prim where prim: "constraintPrimary w body c = Some prim"
    by (auto simp: constraintsOk_def)
  define w1 where "w1 = (if prim then w\<lparr>constraints := cpArrayPush (constraints w) c\<rparr> else w)"
  have s1: "same_structure w w1" by (simp add: w1_def same_structure_def)
  have c1: "conH w1 = conH w" by (simp add: w1_def)
  from constraintNext_path[OF Cons.prems(1)[unfolded cp]] obtain nxt where
    n: "constraintNext w body c = Some nxt" "constraintPath (conH w) body nxt cs" by blast
  have n1: "constraintNext w1 body c = Some nxt" using n(1) c1 by (simp add: constraintNext_def)
  have ok1: "constraintsOk w1 body cs"
    using Cons.prems(2) same_structure_constraintsOk[OF s1] by (simp add: constraintsOk_def)
  from Cons.IH[OF n(2)[folded c1] ok1] obtain w' where
    w': "activateConstraints w1 body nxt = Some w'" "same_structure w1 w'"
    "bodies w' = bodies w1" "sleepingComponents w' = sleepingComponents w1" by blast
  have "activateConstraints w body cp = Some w'"
    using cp prim n1 w'(1) by (subst activateConstraints.simps) (simp add: w1_def Let_def)
  moreover have "bodies w1 = bodies w" "sleepingComponents w1 = sleepingComponents w"
    by (simp_all add: w1_def)
  ultimately show ?case using same_structure_trans[OF s1 w'(2)] w'(3,4) by simp
qed



subsection \<open>The loops over arbiters return\<close>

lemma heldBlockD:
  assumes "heldBlock w x = Some k"
  shows "\<exists>A cs. arbH w x = Some A \<and> contacts A = HeapBlock k \<and> k < length (blocks w)
                \<and> blocks w ! k = Some cs \<and> numContacts A \<le> length cs"
  using assms
  by (auto simp: heldBlock_def split: option.splits contacts_ptr.splits if_splits)

lemma heldBlockI:
  assumes "arbH w x = Some A" "contacts A = HeapBlock k" "k < length (blocks w)"
    "blocks w ! k = Some cs" "numContacts A \<le> length cs"
  shows "heldBlock w x = Some k"
  using assms by (simp add: heldBlock_def)


lemma restoreArbiter_returns:
  assumes "heldBlock w x = Some k"
  shows "\<exists>w'. restoreArbiter w x = Some w'"
proof -
  from heldBlockD[OF assms] obtain A cs where A: "arbH w x = Some A" "contacts A = HeapBlock k"
    "k < length (blocks w)" "blocks w ! k = Some cs" "numContacts A \<le> length cs" by blast
  define n where "n = numContacts A"
  define dst where "dst = BufferAt (contactBufferNum w)"
  define w1 where "w1 = w\<lparr>arbH := (arbH w)(x \<mapsto> A\<lparr>contacts := dst\<rparr>)\<rparr>"
  have r: "readContacts w1 (HeapBlock k) n = Some (take n cs)"
    using A by (simp add: readContacts_def w1_def n_def)
  obtain w2 where wr: "writeContacts w1 dst (take n cs) = Some w2"
    and w2: "blocks w2 = blocks w" "arbH w2 = arbH w1"
    by (simp add: writeContacts_def dst_def w1_def)
  have m: "memcpy w1 dst (HeapBlock k) n = Some w2" using r wr by (simp add: memcpy_def)
  define w3 where "w3 = cpSpacePushContacts w2 n"
  have a3: "arbH w3 x = Some (A\<lparr>contacts := dst\<rparr>)"
    using w2 by (simp add: w3_def cpSpacePushContacts_def w1_def)
  define w4 where "w4 = w3\<lparr>contactSet := cpHashSetInsert (contactSet w3)
                      (CP_HASH_PAIR (arb_a (A\<lparr>contacts := dst\<rparr>)) (arb_b (A\<lparr>contacts := dst\<rparr>))) x\<rparr>"
  have b4: "blocks w4 = blocks w" using w2 by (simp add: w4_def w3_def cpSpacePushContacts_def)
  have f: "cpfree w4 (HeapBlock k) \<noteq> None" using A b4 by (simp add: cpfree_def)
  then obtain w' where "cpfree w4 (HeapBlock k) = Some w'" by blast
  then have "restoreArbiter w x = Some w'"
    using A m a3 unfolding w4_def w3_def w1_def dst_def n_def
    by (simp add: restoreArbiter_def Let_def cpContactBufferGetArray_def)
  then show ?thesis by blast
qed



lemma restore_step_links:
  assumes "(if prim then restoreArbiter w x else Some w) = Some w1"
  shows "same_links w w1"
proof (cases prim)
  case True
  then have run: "restoreArbiter w x = Some w1" using assms by simp
  then obtain Ax where "arbH w x = Some Ax"
    by (auto simp: restoreArbiter_def split: Option.bind_splits)
  then obtain key where "pairKey w x = Some key" by (simp add: pairKey_def)
  from restoreArbiter_rel[OF run this] show ?thesis by (simp add: restore_rel_def)
next
  case False
  then show ?thesis using assms by (auto simp: same_links_refl)
qed




lemma activateArbiters_returns:
  assumes "arbiterChain w body ap = Some xs" and "restoreAll w body xs = Some s"
  shows "activateArbiters w body ap = Some s"
  using assms
proof (induction xs arbitrary: w ap)
  case Nil
  then have "ap = None"
    by (cases ap) (auto simp: arbiterChain.simps[of w body "Some _"] split: Option.bind_splits)
  then show ?case using Nil.prems(2) by (simp add: activateArbiters.simps)
next
  case (Cons x xs)
  from Cons.prems(1) obtain nxt where n: "ap = Some x" "arbiterNext w body x = Some nxt"
     "arbiterChain w body nxt = Some xs"
    by (cases ap) (auto simp: arbiterChain.simps[of w body "None"]
                              arbiterChain.simps[of w body "Some _"] split: Option.bind_splits)
  from Cons.prems(2) obtain prim w1 where s: "arbiterPrimary w body x = Some prim"
    "(if prim then restoreArbiter w x else Some w) = Some w1" "restoreAll w1 body xs = Some s"
    by (auto split: Option.bind_splits)
  have l: "same_links w w1" by (rule restore_step_links[OF s(2)])
  have n1: "arbiterNext w1 body x = Some nxt" using same_links_next[OF l] n(2) by simp
  have c1: "arbiterChain w1 body nxt = Some xs"
    by (rule arbiterChain_links[OF n(3) same_links_sym[OF l]])
  from Cons.IH[OF c1 s(3)] have "activateArbiters w1 body nxt = Some s" .
  then show ?case using n(1) s(1,2) n1 by (subst activateArbiters.simps) simp
qed




lemma restoreAll_returns:
  assumes "restorable w body xs" and "distinct xs"
  shows "\<exists>s. restoreAll w body xs = Some s"
  using assms
proof (induction xs arbitrary: w)
  case Nil
  then show ?case by simp
next
  case (Cons x xs)
  from Cons.prems(1) obtain prim where prim: "arbiterPrimary w body x = Some prim"
    by (auto simp: restorable_def)
  have notin: "x \<notin> set xs" and d: "distinct xs" using Cons.prems(2) by simp_all
  have "\<exists>w1. (if prim then restoreArbiter w x else Some w) = Some w1
             \<and> (\<forall>y \<in> set xs. arbiterPrimary w body y = Some True \<longrightarrow> heldBlock w1 y = heldBlock w y)"
  proof (cases prim)
    case False
    then show ?thesis by simp
  next
    case True
    then obtain k where k: "heldBlock w x = Some k"
      using Cons.prems(1) prim by (auto simp: restorable_def)
    from restoreArbiter_returns[OF k] obtain w1 where run: "restoreArbiter w x = Some w1" by blast
    from heldBlockD[OF k] obtain A where A: "arbH w x = Some A" "contacts A = HeapBlock k" by blast
    from restoreArbiter_post[OF A(1) run] A(2) have
      b: "blocks w1 = (blocks w)[k := None]" and a: "arbH w1 = (arbH w)(x \<mapsto> A\<lparr>contacts := BufferAt (contactBufferNum w)\<rparr>)"
      by auto
    have "heldBlock w1 y = heldBlock w y"
      if y: "y \<in> set xs" "arbiterPrimary w body y = Some True" for y
    proof -
      have ne: "y \<noteq> x" using y(1) notin by auto
      from Cons.prems(1) y prim True ne have "heldBlock w y \<noteq> None" "heldBlock w y \<noteq> heldBlock w x"
        by (auto simp: restorable_def)
      then obtain k' where k': "heldBlock w y = Some k'" "k' \<noteq> k" using k by auto
      from heldBlockD[OF k'(1)] obtain Ay cs where
        Ay: "arbH w y = Some Ay" "contacts Ay = HeapBlock k'" "k' < length (blocks w)"
        "blocks w ! k' = Some cs" "numContacts Ay \<le> length cs" by blast
      have 1: "arbH w1 y = Some Ay" using a ne Ay(1) by simp
      have 3: "k' < length (blocks w1)" using b Ay(3) by simp
      have 4: "blocks w1 ! k' = Some cs" using b Ay(4) k'(2) by simp
      have "heldBlock w1 y = Some k'" by (rule heldBlockI[OF 1 Ay(2) 3 4 Ay(5)])
      then show ?thesis using k'(1) by simp
    qed
    then show ?thesis using run True by simp
  qed
  then obtain w1 where w1: "(if prim then restoreArbiter w x else Some w) = Some w1"
    and keep: "\<And>y. y \<in> set xs \<Longrightarrow> arbiterPrimary w body y = Some True \<Longrightarrow> heldBlock w1 y = heldBlock w y"
    by blast
  have l: "same_links w w1" by (rule restore_step_links[OF w1])
  note p = same_links_primary[OF l]
  have "restorable w1 body xs"
    unfolding restorable_def
  proof (intro conjI ballI impI)
    fix y assume y: "y \<in> set xs"
    show "arbiterPrimary w1 body y \<noteq> None" using Cons.prems(1) y p by (simp add: restorable_def)
    assume "arbiterPrimary w1 body y = Some True"
    then have py: "arbiterPrimary w body y = Some True" using p by simp
    then have "heldBlock w y \<noteq> None" using Cons.prems(1) y by (simp add: restorable_def)
    then show "heldBlock w1 y \<noteq> None" using keep[OF y py] by simp
  next
    fix y z assume y: "y \<in> set xs" and z: "z \<in> set xs"
      and a: "y \<noteq> z \<and> arbiterPrimary w1 body y = Some True \<and> arbiterPrimary w1 body z = Some True"
    then have py: "arbiterPrimary w body y = Some True" and pz: "arbiterPrimary w body z = Some True"
      using p by simp_all
    have "heldBlock w y \<noteq> heldBlock w z"
      using Cons.prems(1) y z a py pz by (simp add: restorable_def)
    then show "heldBlock w1 y \<noteq> heldBlock w1 z" using keep[OF y py] keep[OF z pz] by simp
  qed
  from Cons.IH[OF this d] obtain s where "restoreAll w1 body xs = Some s" by blast
  then show ?case using prim w1 by simp
qed


subsection \<open>Deactivation and activation of a well-formed body return\<close>

lemma constraintsOk_cong:
  assumes "conH w' = conH w" and "bodyH w' = bodyH w"
  shows "constraintsOk w' body cs = constraintsOk w body cs"
  unfolding constraintsOk_def constraintPrimary_def assms by (rule refl)

lemma restoreAll_conH: "restoreAll w body xs = Some s \<Longrightarrow> conH s = conH w"
proof (induction xs arbitrary: w)
  case Nil
  then show ?case by simp
next
  case (Cons x xs)
  from Cons.prems obtain prim w1 where s: "arbiterPrimary w body x = Some prim"
    "(if prim then restoreArbiter w x else Some w) = Some w1" "restoreAll w1 body xs = Some s"
    by (auto split: Option.bind_splits)
  have "conH w1 = conH w"
  proof (cases prim)
    case True
    then have run: "restoreArbiter w x = Some w1" using s(2) by simp
    then obtain A where A: "arbH w x = Some A"
      by (auto simp: restoreArbiter_def split: Option.bind_splits)
    from restoreArbiter_post[OF A run] show ?thesis by auto
  next
    case False
    then show ?thesis using s(2) by simp
  qed
  then show ?case using Cons.IH[OF s(3)] by simp
qed


lemma cpSpaceActivateBody_returns:
  assumes ul: "\<not> locked w"
    and B: "bodyH w body = Some B" and sp: "shapePath (shapeH w) (shapeList B) ss"
    and ch: "arbiterChain w body (arbiterList B) = Some arbs" and rs: "restorable w body arbs"
    and cp: "constraintPath (conH w) body (constraintList B) cons"
    and ok: "constraintsOk w body cons"
  shows "\<exists>w'. cpSpaceActivateBody w body = Some w'"
proof -
  define w1 where "w1 = w\<lparr>bodies := cpArrayPush (bodies w) body\<rparr>"
  have st1: "same_structure w w1" by (simp add: w1_def same_structure_def)
  have B1: "bodyH w1 body = Some B" using B by (simp add: w1_def)
  have sp1: "shapePath (shapeH w1) (shapeList B) ss" using sp by (simp add: w1_def)
  from activateShapes_returns[OF sp1] obtain w2 where
    s2: "activateShapes w1 (shapeList B) = Some w2" by blast
  note st2 = same_structure_trans[OF st1 activateShapes_structure[OF s2]]
  note f2 = activateShapes_contact_frame[OF s2]
  have B2: "bodyH w2 body = Some B" using f2 B1 by (simp add: contact_frame_def)
  have ch2: "arbiterChain w2 body (arbiterList B) = Some arbs"
    by (rule same_structure_chain[OF ch st2])
  have rs2: "restorable w2 body arbs" using same_structure_restorable[OF st2] rs by simp
  have d: "distinct arbs" by (rule arbiterChain_distinct[OF ch])
  from restoreAll_returns[OF rs2 d] obtain w3 where s3: "restoreAll w2 body arbs = Some w3" by blast
  have a3: "activateArbiters w2 body (arbiterList B) = Some w3"
    by (rule activateArbiters_returns[OF ch2 s3])
  have l3: "same_links w2 w3" using restoreAll_rel[OF s3] by (simp add: restore_rel_def)
  have b3: "bodyH w3 = bodyH w" using l3 f2 by (simp add: same_links_def contact_frame_def w1_def)
  have c3: "conH w3 = conH w" using restoreAll_conH[OF s3] st2 by (simp add: same_structure_def)
  have B3: "bodyH w3 body = Some B" using b3 B by simp
  have cp3: "constraintPath (conH w3) body (constraintList B) cons" using cp c3 by simp
  have ok3: "constraintsOk w3 body cons" using constraintsOk_cong[OF c3 b3] ok by simp
  from activateConstraints_returns[OF cp3 ok3] obtain w' where
    "activateConstraints w3 body (constraintList B) = Some w'" by blast
  then have "cpSpaceActivateBody w body = Some w'"
    using ul B1 s2 B2 a3 B3 by (simp add: cpSpaceActivateBody_def Let_def w1_def)
  then show ?thesis by blast
qed





subsection \<open>One body put to sleep and woken again\<close>










subsection \<open>Activating an awake body, putting a sleeping body to sleep\<close>

lemma parentChain_pchain:
  "parentChain h b xs r \<Longrightarrow> pchain (vP (view_of h)) b xs r"
proof (induction xs arbitrary: b)
  case Nil
  then show ?case by (auto simp: view_of_def split: option.splits)
next
  case (Cons x xs)
  from Cons.prems obtain B p where "x = b" "h b = Some B" "parent (node B) = Some p"
    "parentChain h p xs r" by (auto split: option.splits)
  then show ?case using Cons.IH[of p] by (simp add: view_of_def)
qed

lemma cpBodyActivate_at_rest:
  assumes rest: "forest_at_rest w" and ch: "parentChain (bodyH w) body xs r"
    and R: "bodyH w r = Some R" and aw: "\<not> cpBodyIsSleeping R"
  shows "cpBodyActivate w body = Some w"
proof -
  let ?v = "view_of (bodyH w)"
  from rest have flat: "\<And>b B. bodyH w b = Some B \<Longrightarrow> \<not> cpBodyIsSleeping B \<Longrightarrow> parent (node B) = None"
    and C: "asleep_ringed ?v" unfolding forest_at_rest_def by blast+
  have ro: "rootOf (vP ?v) body r" using parentChain_pchain[OF ch] unfolding rootOf_def by blast
  have nr: "vN ?v r = None" using R aw by (simp add: view_of_def cpBodyIsSleeping_def)
  have nb: "vN ?v body = None"
  proof (rule ccontr)
    assume "vN ?v body \<noteq> None"
    from inv_asleep_root_asleep[OF C this ro] nr show False by simp
  qed
  have "xs = []"
  proof (cases xs)
    case Nil
    then show ?thesis .
  next
    case (Cons x ys)
    with ch obtain B p where B: "bodyH w body = Some B" "parent (node B) = Some p"
      by (auto split: option.splits)
    then have "\<not> cpBodyIsSleeping B" using nb by (simp add: view_of_def cpBodyIsSleeping_def)
    from flat[OF B(1) this] B(2) show ?thesis by simp
  qed
  then have "compressed (bodyH w) xs r = bodyH w" by (simp add: compressed_def)
  then show ?thesis using cpBodyActivate_awake[OF ch R aw] by simp
qed

text \<open>
  Claim C8. In a forest between two steps, or when \<open>body\<close> is its own root or a child of
  its root, \<^verbatim>\<open>cpBodyActivate\<close> on a body whose root is not sleeping returns with the world
  unchanged. \<^verbatim>\<open>cpBodySleep\<close> on a sleeping body that is neither static nor rogue, in an
  unlocked space, returns with the world unchanged.
\<close>

theorem activate_awake_noop_sleep_sleeping_noop:
  "((forest_at_rest w \<or> length xs \<le> 1) \<and> parentChain (bodyH w) body xs r
      \<and> bodyH w r = Some R \<and> \<not> cpBodyIsSleeping R \<longrightarrow> cpBodyActivate w body = Some w)
   \<and> (bodyH w b = Some B \<and> \<not> cpBodyIsStatic B \<and> \<not> cpBodyIsRogue B \<and> \<not> locked w
        \<and> cpBodyIsSleeping B \<longrightarrow> cpBodySleep w b = Some w)"
proof (intro conjI impI)
  assume a: "(forest_at_rest w \<or> length xs \<le> 1) \<and> parentChain (bodyH w) body xs r
      \<and> bodyH w r = Some R \<and> \<not> cpBodyIsSleeping R"
  then have ch: "parentChain (bodyH w) body xs r" and R: "bodyH w r = Some R"
    and aw: "\<not> cpBodyIsSleeping R" by simp_all
  from a consider "forest_at_rest w" | "length xs \<le> 1" by blast
  then show "cpBodyActivate w body = Some w"
  proof cases
    case 1
    then show ?thesis by (rule cpBodyActivate_at_rest[OF _ ch R aw])
  next
    case 2
    from compressed_short[OF ch 2] cpBodyActivate_awake[OF ch R aw] show ?thesis by simp
  qed
next
  assume "bodyH w b = Some B \<and> \<not> cpBodyIsStatic B \<and> \<not> cpBodyIsRogue B \<and> \<not> locked w
        \<and> cpBodyIsSleeping B"
  then show "cpBodySleep w b = Some w" using cpBodySleep_sleeping[of w b B] by simp
qed

lemmas rest_defs = restWorld_def exWorld_def exBody_def exNode_def

lemma forest_at_rest_restWorld: "forest_at_rest restWorld"
proof -
  let ?v = "view_of (bodyH restWorld)"
  have N: "vN ?v = (\<lambda>b. if b = 2 then Some 3 else if b = 3 then Some 2 else None)"
    and P: "vP ?v = (\<lambda>b. if b = 3 then Some 2 else None)"
    by (auto simp: view_of_def rest_defs fun_eq_iff)
  have ring: "ringPath (vN ?v) 2 [2, 3] 2" unfolding N by simp
  have r2: "rootOf (vP ?v) 2 2" unfolding rootOf_def P by (rule exI[of _ "[]"]) simp
  have r3: "rootOf (vP ?v) 3 2" unfolding rootOf_def P by (rule exI[of _ "[3]"]) simp
  have "asleep_ringed ?v"
    unfolding asleep_ringed_def
  proof (intro allI impI)
    fix b assume "vN ?v b \<noteq> None"
    then have "b \<in> set [2, 3::nat]" unfolding N by (auto split: if_splits)
    then show "\<exists>r ms. ringPath (vN ?v) r ms r \<and> b \<in> set ms \<and> (\<forall>m \<in> set ms. rootOf (vP ?v) m r)"
      using ring r2 r3 by (intro exI[of _ 2] exI[of _ "[2, 3]"]) simp
  qed
  moreover have "\<forall>b B. bodyH restWorld b = Some B \<and> \<not> cpBodyIsSleeping B \<longrightarrow> parent (node B) = None"
    by (auto simp: rest_defs cpBodyIsSleeping_def split: if_splits)
  ultimately show ?thesis unfolding forest_at_rest_def by simp
qed

theorem activate_awake_noop_sleep_sleeping_noop_witness:
  "forest_at_rest restWorld \<and> parentChain (bodyH restWorld) 1 [] 1
   \<and> bodyH restWorld 1 = Some exBody \<and> \<not> cpBodyIsSleeping exBody
   \<and> cpBodyActivate restWorld 1 = Some restWorld
   \<and> bodyH restWorld 3 = Some (exBody\<lparr>node := exNode\<lparr>parent := Some 2, next := Some 2\<rparr>\<rparr>)
   \<and> \<not> cpBodyIsStatic (exBody\<lparr>node := exNode\<lparr>parent := Some 2, next := Some 2\<rparr>\<rparr>)
   \<and> \<not> cpBodyIsRogue (exBody\<lparr>node := exNode\<lparr>parent := Some 2, next := Some 2\<rparr>\<rparr>)
   \<and> \<not> locked restWorld
   \<and> cpBodyIsSleeping (exBody\<lparr>node := exNode\<lparr>parent := Some 2, next := Some 2\<rparr>\<rparr>)
   \<and> cpBodySleep restWorld 3 = Some restWorld"
proof -
  have ch: "parentChain (bodyH restWorld) 1 [] 1" by (simp add: rest_defs)
  have R: "bodyH restWorld 1 = Some exBody" by (simp add: rest_defs)
  have aw: "\<not> cpBodyIsSleeping exBody" by (simp add: cpBodyIsSleeping_def exBody_def exNode_def)
  have s: "bodyH restWorld 3 = Some (exBody\<lparr>node := exNode\<lparr>parent := Some 2, next := Some 2\<rparr>\<rparr>)"
     "\<not> cpBodyIsStatic (exBody\<lparr>node := exNode\<lparr>parent := Some 2, next := Some 2\<rparr>\<rparr>)"
     "\<not> cpBodyIsRogue (exBody\<lparr>node := exNode\<lparr>parent := Some 2, next := Some 2\<rparr>\<rparr>)"
     "\<not> locked restWorld"
     "cpBodyIsSleeping (exBody\<lparr>node := exNode\<lparr>parent := Some 2, next := Some 2\<rparr>\<rparr>)"
    by (simp_all add: rest_defs cpBodyIsStatic_def cpBodyIsRogue_def cpBodyIsSleeping_def)
  have a1: "cpBodyActivate restWorld 1 = Some restWorld"
    using activate_awake_noop_sleep_sleeping_noop[of restWorld "[]" 1 1 exBody]
      forest_at_rest_restWorld ch R aw by blast
  have a2: "cpBodySleep restWorld 3 = Some restWorld"
    using activate_awake_noop_sleep_sleeping_noop[of restWorld _ _ _ _ 3
            "exBody\<lparr>node := exNode\<lparr>parent := Some 2, next := Some 2\<rparr>\<rparr>"] s by blast
  show ?thesis using forest_at_rest_restWorld ch R aw s a1 a2 by blast
qed

subsection \<open>Activation while the space is unlocked\<close>

text \<open>
  Claim C10, as amended. When the space is unlocked, every call of \<^verbatim>\<open>cpSpaceActivateBody\<close>
  that returns has appended \<open>body\<close> to \<open>bodies\<close> without looking for it there: the body occurs
  once more than before, and the list has a duplicate if the body was already in it. The
  call returns whenever \<open>body\<close> is \<open>activatable\<close>: its shape, arbiter and constraint lists are
  well formed and each arbiter that the loop of lines 73-90 restores holds a heap block of
  its own with room for its contacts.
\<close>

theorem activateBody_appends_unchecked:
  assumes "\<not> locked w"
  shows "(cpSpaceActivateBody w body = Some w' \<longrightarrow>
            bodies w' = bodies w @ [body]
            \<and> count_list (bodies w') body = count_list (bodies w) body + 1
            \<and> (body \<in> set (bodies w) \<longrightarrow> \<not> distinct (bodies w')))
         \<and> (activatable w body \<longrightarrow> (\<exists>v. cpSpaceActivateBody w body = Some v))"
proof (intro conjI impI)
  assume "cpSpaceActivateBody w body = Some w'"
  from cpSpaceActivateBody_unlocked[OF assms this]
  show b: "bodies w' = bodies w @ [body]" by simp
  then show "count_list (bodies w') body = count_list (bodies w) body + 1" by simp
  assume "body \<in> set (bodies w)"
  then show "\<not> distinct (bodies w')" using b by simp
next
  assume "activatable w body"
  then obtain B ss arbs cons where
    "bodyH w body = Some B" "shapePath (shapeH w) (shapeList B) ss"
    "arbiterChain w body (arbiterList B) = Some arbs" "restorable w body arbs"
    "constraintPath (conH w) body (constraintList B) cons" "constraintsOk w body cons"
    unfolding activatable_def by blast
  from cpSpaceActivateBody_returns[OF assms this]
  show "\<exists>v. cpSpaceActivateBody w body = Some v" .
qed

lemmas wake_defs = wakeWorld_def exWorld_def exBody_def exNode_def exShape_def exArbiter_def
  exConstraint_def

lemma wakeWorld_chain1: "arbiterChain wakeWorld 1 (Some 21) = Some [21, 22]"
  by (simp add: wake_defs arbiterChain.simps arbiterNext_def)

lemma wakeWorld_chain2: "arbiterChain wakeWorld 2 (Some 21) = Some [21]"
  by (simp add: wake_defs arbiterChain.simps arbiterNext_def)

lemma wakeWorld_primary:
  "arbiterPrimary wakeWorld 1 21 = Some True" "arbiterPrimary wakeWorld 1 22 = Some False"
  "arbiterPrimary wakeWorld 2 21 = Some False"
  by (simp_all add: wake_defs arbiterPrimary_def cpBodyIsStatic_def)

lemma wakeWorld_held: "heldBlock wakeWorld 21 = Some 0"
  by (simp add: wake_defs heldBlock_def)

lemma activatable_wakeWorld_1: "activatable wakeWorld 1"
  unfolding activatable_def
proof (intro exI conjI)
  show "bodyH wakeWorld 1
        = Some (exBody\<lparr>shapeList := Some 11, arbiterList := Some 21, constraintList := Some 31\<rparr>)"
    by (simp add: wake_defs)
  show "shapePath (shapeH wakeWorld)
          (shapeList (exBody\<lparr>shapeList := Some 11, arbiterList := Some 21, constraintList := Some 31\<rparr>))
          [11]"
    by (simp add: wake_defs)
  show "arbiterChain wakeWorld 1
          (arbiterList (exBody\<lparr>shapeList := Some 11, arbiterList := Some 21, constraintList := Some 31\<rparr>))
        = Some [21, 22]"
    using wakeWorld_chain1 by simp
  show "restorable wakeWorld 1 [21, 22]"
    using wakeWorld_primary wakeWorld_held by (auto simp: restorable_def)
  show "constraintPath (conH wakeWorld) 1
          (constraintList (exBody\<lparr>shapeList := Some 11, arbiterList := Some 21, constraintList := Some 31\<rparr>))
          [31]"
    by (simp add: wake_defs)
  show "constraintsOk wakeWorld 1 [31]"
    by (simp add: constraintsOk_def constraintPrimary_def wake_defs)
qed

lemma activatable_wakeWorld_2: "activatable wakeWorld 2"
  unfolding activatable_def
proof (intro exI conjI)
  show "bodyH wakeWorld 2 = Some (exBody\<lparr>shapeList := Some 12, arbiterList := Some 21\<rparr>)"
    by (simp add: wake_defs)
  show "shapePath (shapeH wakeWorld)
          (shapeList (exBody\<lparr>shapeList := Some 12, arbiterList := Some 21\<rparr>)) [12, 13]"
    by (simp add: wake_defs)
  show "arbiterChain wakeWorld 2 (arbiterList (exBody\<lparr>shapeList := Some 12, arbiterList := Some 21\<rparr>))
        = Some [21]"
    using wakeWorld_chain2 by simp
  show "restorable wakeWorld 2 [21]" using wakeWorld_primary by (auto simp: restorable_def)
  show "constraintPath (conH wakeWorld) 2
          (constraintList (exBody\<lparr>shapeList := Some 12, arbiterList := Some 21\<rparr>)) []"
    by (simp add: wake_defs)
  show "constraintsOk wakeWorld 2 []" by (simp add: constraintsOk_def)
qed

lemma wakeWorld_run1:
  "map_option (\<lambda>w'. (bodies w', activeShapes w', constraints w',
                      map_option contacts (arbH w' 21), blocks w'))
     (cpSpaceActivateBody wakeWorld 1)
   = Some ([2, 1], [(11, 11)], [31], Some (BufferAt 0), [None])"
  by (simp add: wake_defs model_defs loop_simps Let_def)

lemma wakeWorld_run2:
  "map_option (\<lambda>w'. (bodies w', activeShapes w', map_option contacts (arbH w' 21), blocks w'))
     (cpSpaceActivateBody wakeWorld 2)
   = Some ([2, 2], [(13, 13), (12, 12)], Some (HeapBlock 0), [Some [(1, 2, 3, 4)]])"
  by (simp add: wake_defs model_defs loop_simps Let_def)

theorem activateBody_appends_unchecked_witness:
  "(\<not> locked wakeWorld \<and> activatable wakeWorld 1 \<and> activatable wakeWorld 2
    \<and> 1 \<notin> set (bodies wakeWorld) \<and> 2 \<in> set (bodies wakeWorld)
    \<and> map_option bodies (cpSpaceActivateBody wakeWorld 1) = Some [2, 1]
    \<and> map_option bodies (cpSpaceActivateBody wakeWorld 2) = Some [2, 2]
    \<and> map_option (\<lambda>w'. count_list (bodies w') 2) (cpSpaceActivateBody wakeWorld 2) = Some 2
    \<and> map_option (\<lambda>w'. distinct (bodies w')) (cpSpaceActivateBody wakeWorld 2) = Some False)
   \<and> map_option (\<lambda>w'. (bodies w', activeShapes w', constraints w',
                         map_option contacts (arbH w' 21), blocks w'))
        (cpSpaceActivateBody wakeWorld 1)
      = Some ([2, 1], [(11, 11)], [31], Some (BufferAt 0), [None])
   \<and> map_option (\<lambda>w'. (bodies w', activeShapes w', map_option contacts (arbH w' 21), blocks w'))
        (cpSpaceActivateBody wakeWorld 2)
      = Some ([2, 2], [(13, 13), (12, 12)], Some (HeapBlock 0), [Some [(1, 2, 3, 4)]])"
proof -
  have ul: "\<not> locked wakeWorld" by (simp add: wake_defs)
  have b: "bodies wakeWorld = [2]" by (simp add: wake_defs)
  from activateBody_appends_unchecked[OF ul, of 1] activatable_wakeWorld_1
  obtain v1 where v1: "cpSpaceActivateBody wakeWorld 1 = Some v1" by blast
  from activateBody_appends_unchecked[OF ul, of 2] activatable_wakeWorld_2
  obtain v2 where v2: "cpSpaceActivateBody wakeWorld 2 = Some v2" by blast
  from activateBody_appends_unchecked[OF ul, of 1 v1] v1 have "bodies v1 = [2, 1]" using b by simp
  moreover from activateBody_appends_unchecked[OF ul, of 2 v2] v2 have
    "bodies v2 = [2, 2]" "count_list (bodies v2) 2 = 2" "\<not> distinct (bodies v2)"
    using b by simp_all
  ultimately have appended:
    "\<not> locked wakeWorld \<and> activatable wakeWorld 1 \<and> activatable wakeWorld 2
     \<and> 1 \<notin> set (bodies wakeWorld) \<and> 2 \<in> set (bodies wakeWorld)
     \<and> map_option bodies (cpSpaceActivateBody wakeWorld 1) = Some [2, 1]
     \<and> map_option bodies (cpSpaceActivateBody wakeWorld 2) = Some [2, 2]
     \<and> map_option (\<lambda>w'. count_list (bodies w') 2) (cpSpaceActivateBody wakeWorld 2) = Some 2
     \<and> map_option (\<lambda>w'. distinct (bodies w')) (cpSpaceActivateBody wakeWorld 2) = Some False"
    using ul activatable_wakeWorld_1 activatable_wakeWorld_2 b v1 v2 by simp
  show ?thesis
    by (rule conjI[OF appended conjI[OF wakeWorld_run1 wakeWorld_run2]])
qed

text \<open>
  In \<open>contactWorld\<close> body 1 is listed and owns the arbiter 21, whose contacts are in the
  contact buffer. The unlocked branch reaches \<^verbatim>\<open>cpfree(contacts)\<close> at line 88 with a
  pointer into the buffer: the call does not return.
\<close>

theorem activateBody_listed_live_contact_counterexample:
  "\<not> locked contactWorld \<and> 1 \<in> set (bodies contactWorld)
   \<and> map_option contacts (arbH contactWorld 21) = Some (BufferAt 0)
   \<and> arbiterPrimary contactWorld 1 21 = Some True
   \<and> cpSpaceActivateBody contactWorld 1 = None"
  by (simp add: contact_defs model_defs loop_simps Let_def)

end
